theory Spec2Isabelle
  imports Main "HOL-Library.Extended_Nat"
begin

section \<open>The partial renderer of react-lightyear\<close>

text \<open>
  A shallow embedding of \<^verbatim>\<open>ReactDOMServerRenderer\<close> and of its subclass
  \<^verbatim>\<open>ReactDOMServerRendererAsync\<close>: the frame stack, the two context stacks, the
  synchronous pull loop \<^verbatim>\<open>read\<close>, the asynchronous pull loop \<^verbatim>\<open>readAsync\<close> with its
  queue of strings and promises, and \<^verbatim>\<open>destroy\<close>.

  Conventions.
  \<^item> A JavaScript array is a list with index 0 at the head, except \<^verbatim>\<open>this.stack\<close>,
    whose top (the last array element) is the head of the list.
  \<^item> \<^verbatim>\<open>null\<close>, \<^verbatim>\<open>undefined\<close> and array holes are \<open>None\<close>.
  \<^item> A thrown value is \<open>Inl\<close>; the renderer and the shared state at the throw are
    returned with it, since the object outlives the call.
  \<^item> The legacy context object, the DOM namespace and \<^verbatim>\<open>currentSelectValue\<close> of a frame
    only feed the markup encoder and are left out; the build flag
    \<^verbatim>\<open>enableSuspenseServerRenderer\<close> is on; DEV-only code is left out.
\<close>

subsection \<open>Nodes\<close>

type_synonym threadID = nat
type_synonym ctxid = nat
type_synonym promise = nat
type_synonym jsval = "nat option"

text \<open>
  The children that \<^verbatim>\<open>render\<close> distinguishes. \<open>Text\<close> is a string or number child
  (already converted to a string). \<open>Element tag attrs inner kids\<close> is a host element:
  \<open>attrs\<close> is the attribute markup that the property encoder produces for its props,
  \<open>inner\<close> the result of \<^verbatim>\<open>getNonChildrenInnerMarkup\<close>. \<open>Suspense fallback kids\<close> has
  \<open>fallback = None\<close> when the prop is \<^verbatim>\<open>undefined\<close>. \<open>Consumer c f\<close> calls its render prop
  \<open>f\<close> on the current value. The last three are composite components as \<^verbatim>\<open>resolve\<close>
  sees them: one whose render returns a child, one that throws a thenable until that
  thenable has settled and then returns a child, and one that throws an error.

  A list of children is the array that \<^verbatim>\<open>React.Children.toArray\<close> has made of a
  \<^verbatim>\<open>children\<close> value. \<^verbatim>\<open>toArray\<close> drops \<^verbatim>\<open>null\<close>, so the source never meets a \<open>Null\<close>
  in such a list; where a list of the model has one, it is rendered as the empty string,
  like the \<open>Null\<close> that a component returns.
\<close>

datatype node =
    Text string
  | Null
  | Element string string "string option" "node list"
  | Fragment "node list"
  | Suspense "node list option" "node list"
  | Provider ctxid jsval "node list"
  | Consumer ctxid "jsval \<Rightarrow> node list"
  | Component node
  | Suspending promise node
  | Throwing

datatype error =
    UnhandledSuspension
  | ComponentError
  | InvalidTag
  | InvalidElementType
  | NoFallbackFrame
  | TypeError

datatype thrown = Thenable promise | Failure error

subsection \<open>Collaborators that are not part of the source file\<close>

text \<open>
  The markup encoder: \<^verbatim>\<open>escapeTextForBrowser\<close>, \<^verbatim>\<open>createMarkupForRoot\<close> and the table
  \<^verbatim>\<open>omittedCloseTags\<close> are imported by the source file and taken as parameters.
\<close>

record encoder =
  escapeTextForBrowser :: "string \<Rightarrow> string"
  createMarkupForRoot :: string
  omittedCloseTags :: "string \<Rightarrow> bool"

text \<open>
  The state shared by all renderers. \<open>slots w c t\<close> is \<^verbatim>\<open>context[threadID]\<close> of the
  context object \<open>c\<close>. \<open>settled\<close> lists the thenables that have been fulfilled.

  Modelled from the spec: the module \<^verbatim>\<open>ReactThreadIDAllocator\<close> (\<^verbatim>\<open>allocThreadID\<close>,
  \<^verbatim>\<open>freeThreadID\<close>) is missing. \<open>held\<close> are the ids currently handed out; allocation returns
  a small non-negative integer that is not held, release returns the id to the free pool.
  \<open>released\<close> logs every release, oldest first.

  Modelled from the spec: \<^verbatim>\<open>validateContextBounds\<close> of \<^verbatim>\<open>ReactPartialRendererContext\<close> is
  missing. Every slot of the store holds a value (the default one until a provider
  overrides it), so the bounds check has nothing to do.
\<close>

record world =
  slots :: "ctxid \<Rightarrow> threadID \<Rightarrow> jsval"
  held :: "threadID list"
  released :: "threadID list"
  settled :: "promise list"

definition allocThreadID :: "world \<Rightarrow> threadID \<times> world" where
  "allocThreadID w =
     (let i = (case List.find (\<lambda>i. i \<notin> set (held w)) [0..<Suc (length (held w))] of
                 Some i \<Rightarrow> i | None \<Rightarrow> Suc (length (held w)))
      in (i, w\<lparr>held := held w @ [i]\<rparr>))"

definition freeThreadID :: "threadID \<Rightarrow> world \<Rightarrow> world" where
  "freeThreadID i w = w\<lparr>held := removeAll i (held w), released := released w @ [i]\<rparr>"

definition setSlot :: "ctxid \<Rightarrow> threadID \<Rightarrow> jsval \<Rightarrow> world \<Rightarrow> world" where
  "setSlot c t v w = w\<lparr>slots := (slots w)(c := (slots w c)(t := v))\<rparr>"

subsection \<open>Frames and the renderer object\<close>

datatype ftype = TNull | TTag string | TProvider ctxid | TConsumer | TSuspense

datatype frame =
  Frame (ftype: ftype) (children: "node list") (childIndex: nat) (footer: string)
        (fallbackFrame: "frame option")

text \<open>The snapshot made by \<^verbatim>\<open>getClonedRenderContext\<close>.\<close>

record renderContext =
  rc_threadID :: threadID
  rc_previousWasTextNode :: bool
  rc_contextIndex :: int
  rc_contextStack :: "ctxid option list"
  rc_contextValues :: "jsval list"
  rc_contextValueStack :: "jsval list"

text \<open>
  An entry of \<^verbatim>\<open>outQueue\<close> is a string or a promise. The source creates two kinds of
  promise: the one of \<^verbatim>\<open>renderEventually\<close>, which re-renders the suspended child in a
  child renderer once the thenable has settled, and the one that rolls up a finished
  Suspense boundary.
\<close>

datatype fragment =
    Str string
  | Resume promise node bool renderContext
  | Boundary "fragment list" string

record renderer =
  threadID :: threadID
  stack :: "frame list"
  exhausted :: bool
  previousWasTextNode :: bool
  makeStaticMarkup :: bool
  suspenseDepth :: nat
  contextIndex :: int
  contextStack :: "ctxid option list"
  contextValueStack :: "jsval list"
  outQueue :: "fragment list list"
  isChildRenderer :: bool

subsection \<open>JavaScript array access\<close>

definition js_get :: "'a option list \<Rightarrow> int \<Rightarrow> 'a option" where
  "js_get xs i = (if 0 \<le> i \<and> nat i < length xs then xs ! nat i else None)"

definition js_set :: "'a option list \<Rightarrow> int \<Rightarrow> 'a option \<Rightarrow> 'a option list" where
  "js_set xs i v =
     (if i < 0 then xs
      else if nat i < length xs then xs[nat i := v]
      else xs @ replicate (nat i - length xs) None @ [v])"

definition js_str :: "string option \<Rightarrow> string" where
  "js_str x = (case x of None \<Rightarrow> ''undefined'' | Some s \<Rightarrow> s)"

text \<open>\<^verbatim>\<open>out[d] += s\<close> on an array of strings.\<close>

definition js_append :: "string option list \<Rightarrow> nat \<Rightarrow> string \<Rightarrow> string option list" where
  "js_append out d s = js_set out (int d) (Some (js_str (js_get out (int d)) @ s))"

definition js_pop :: "'a option list \<Rightarrow> 'a option \<times> 'a option list" where
  "js_pop xs = (if xs = [] then (None, []) else (last xs, butlast xs))"

subsection \<open>Construction and the context stacks\<close>

fun flattenTopLevelChildren :: "node \<Rightarrow> node list" where
  "flattenTopLevelChildren Null = []"
| "flattenTopLevelChildren (Text s) = [Text s]"
| "flattenTopLevelChildren (Fragment kids) = kids"
| "flattenTopLevelChildren n = [n]"

definition newRenderer :: "node \<Rightarrow> bool \<Rightarrow> world \<Rightarrow> renderer \<times> world" where
  "newRenderer kids static w =
     (let (i, w') = allocThreadID w in
      (\<lparr>threadID = i,
        stack = [Frame TNull (flattenTopLevelChildren kids) 0 '''' None],
        exhausted = False,
        previousWasTextNode = False,
        makeStaticMarkup = static,
        suspenseDepth = 0,
        contextIndex = - 1,
        contextStack = [],
        contextValueStack = [],
        outQueue = [],
        isChildRenderer = False\<rparr>, w'))"

definition pushProvider :: "ctxid \<Rightarrow> jsval \<Rightarrow> renderer \<Rightarrow> world \<Rightarrow> renderer \<times> world" where
  "pushProvider c v r w =
     (let index = contextIndex r + 1;
          previousValue = slots w c (threadID r)
      in (r\<lparr>contextIndex := index,
            contextStack := js_set (contextStack r) index (Some c),
            contextValueStack := js_set (contextValueStack r) index previousValue\<rparr>,
          setSlot c (threadID r) v w))"

text \<open>
  \<^verbatim>\<open>popProvider\<close> writes through \<^verbatim>\<open>this.contextStack[index]\<close>; when that entry is
  \<^verbatim>\<open>null\<close> or missing the write throws, after the bookkeeping has been done.
\<close>

definition popProvider :: "renderer \<Rightarrow> world \<Rightarrow> (error \<times> renderer \<times> world) + (renderer \<times> world)" where
  "popProvider r w =
     (let index = contextIndex r;
          context = js_get (contextStack r) index;
          previousValue = js_get (contextValueStack r) index;
          r' = r\<lparr>contextStack := js_set (contextStack r) index None,
                 contextValueStack := js_set (contextValueStack r) index None,
                 contextIndex := index - 1\<rparr>
      in case context of
           None \<Rightarrow> Inl (TypeError, r', w)
         | Some c \<Rightarrow> Inr (r', setSlot c (threadID r) previousValue w))"

text \<open>
  The loop of \<^verbatim>\<open>clearProviders\<close>, from \<open>index = n - 1\<close> down to 0. A \<^verbatim>\<open>null\<close> entry
  makes the write throw; the restores done before the throw stay.
\<close>

fun clearFrom :: "nat \<Rightarrow> ctxid option list \<Rightarrow> jsval list \<Rightarrow> threadID \<Rightarrow> world \<Rightarrow> error option \<times> world" where
  "clearFrom 0 cs vs t w = (None, w)"
| "clearFrom (Suc i) cs vs t w =
     (case js_get cs (int i) of
        None \<Rightarrow> (Some TypeError, w)
      | Some c \<Rightarrow> clearFrom i cs vs t (setSlot c t (js_get vs (int i)) w))"

definition clearProviders :: "renderer \<Rightarrow> world \<Rightarrow> error option \<times> world" where
  "clearProviders r w =
     clearFrom (nat (contextIndex r + 1)) (contextStack r) (contextValueStack r) (threadID r) w"

text \<open>\<^verbatim>\<open>ReactDOMServerRenderer.destroy\<close>.\<close>

definition destroy :: "renderer \<Rightarrow> world \<Rightarrow> error option \<times> renderer \<times> world" where
  "destroy r w =
     (if \<not> exhausted r then
        (let r' = r\<lparr>exhausted := True\<rparr> in
         case clearProviders r' w of
           (Some e, w') \<Rightarrow> (Some e, r', w')
         | (None, w') \<Rightarrow> (None, r', freeThreadID (threadID r') w'))
      else (None, r, w))"

subsection \<open>Rendering one child\<close>

text \<open>
  The loop of \<^verbatim>\<open>resolve\<close>: composite components are rendered until the child is no
  longer one. A component that throws ends the loop with the thrown value.
\<close>

fun resolve :: "promise list \<Rightarrow> node \<Rightarrow> thrown + node" where
  "resolve S (Component n) = resolve S n"
| "resolve S (Suspending p n) = (if p \<in> set S then resolve S n else Inl (Thenable p))"
| "resolve S Throwing = Inl (Failure ComponentError)"
| "resolve S n = Inr n"

text \<open>\<^verbatim>\<open>VALID_TAG_REGEX = /^[a-zA-Z][a-zA-Z:_\.\-\d]*$/\<close>\<close>

definition isLetter :: "char \<Rightarrow> bool" where
  "isLetter c = (c \<in> set ''abcdefghijklmnopqrstuvwxyzABCDEFGHIJKLMNOPQRSTUVWXYZ'')"

definition isTagChar :: "char \<Rightarrow> bool" where
  "isTagChar c = (isLetter c \<or> c \<in> set '':_.-0123456789'')"

definition validTag :: "string \<Rightarrow> bool" where
  "validTag tag = (case tag of [] \<Rightarrow> False | c # cs \<Rightarrow> isLetter c \<and> list_all isTagChar cs)"

definition createOpenTagMarkup :: "encoder \<Rightarrow> string \<Rightarrow> string \<Rightarrow> bool \<Rightarrow> bool \<Rightarrow> string" where
  "createOpenTagMarkup E tagVerbatim attrs static isRootElement =
     (let ret = ''<'' @ tagVerbatim @ attrs in
      if static then ret
      else if isRootElement then ret @ '' '' @ createMarkupForRoot E
      else ret)"

definition newlineEatingTags :: "string list" where
  "newlineEatingTags = [''listing'', ''pre'', ''textarea'']"

definition pushFrame :: "frame \<Rightarrow> renderer \<Rightarrow> renderer" where
  "pushFrame f r = r\<lparr>stack := f # stack r\<rparr>"

definition plainFrame :: "node list \<Rightarrow> frame" where
  "plainFrame kids = Frame TNull kids 0 '''' None"

text \<open>
  \<^verbatim>\<open>String.prototype.toLowerCase\<close> on byte strings: the ASCII capital letters are mapped
  to the small ones, every other character is kept.
\<close>

definition toLowerChar :: "char \<Rightarrow> char" where
  "toLowerChar c =
     (case map_of (zip ''ABCDEFGHIJKLMNOPQRSTUVWXYZ'' ''abcdefghijklmnopqrstuvwxyz'') c of
        None \<Rightarrow> c
      | Some l \<Rightarrow> l)"

definition toLowerCase :: "string \<Rightarrow> string" where
  "toLowerCase s = map toLowerChar s"

text \<open>
  \<^verbatim>\<open>renderDOM\<close>: \<open>tagVerbatim\<close> is \<^verbatim>\<open>element.type\<close>, written into the opening and the
  closing tag as it is; the lower-cased \<open>tag\<close> is what is validated, looked up in
  \<^verbatim>\<open>omittedCloseTags\<close> and \<^verbatim>\<open>newlineEatingTags\<close>, and kept as the type of the frame.
\<close>

definition renderDOM ::
  "encoder \<Rightarrow> string \<Rightarrow> string \<Rightarrow> string option \<Rightarrow> node list \<Rightarrow> renderer \<Rightarrow> thrown + (string \<times> renderer)" where
  "renderDOM E tagVerbatim attrs inner kids r =
     (let tag = toLowerCase tagVerbatim in
      if \<not> validTag tag then Inl (Failure InvalidTag)
      else
        let out0 = createOpenTagMarkup E tagVerbatim attrs (makeStaticMarkup r)
                     (length (stack r) = 1 \<and> \<not> isChildRenderer r);
            omitted = omittedCloseTags E tag;
            out1 = (if omitted then out0 @ ''/>'' else out0 @ ''>'');
            footer = (if omitted then '''' else ''</'' @ tagVerbatim @ ''>'');
            out2 = (case inner of
                      None \<Rightarrow> out1
                    | Some m \<Rightarrow>
                        (if tag \<in> set newlineEatingTags \<and> take 1 m = [CHR 0x0A]
                         then out1 @ [CHR 0x0A] else out1) @ m);
            kids' = (case inner of None \<Rightarrow> kids | Some m \<Rightarrow> [])
        in Inr (out2, (pushFrame (Frame (TTag tag) kids' 0 footer None) r)\<lparr>previousWasTextNode := False\<rparr>))"

text \<open>The part of \<^verbatim>\<open>render\<close> after \<^verbatim>\<open>resolve\<close>, by the kind of the resolved child.\<close>

fun renderResolved :: "encoder \<Rightarrow> node \<Rightarrow> renderer \<Rightarrow> world \<Rightarrow> thrown + (string \<times> renderer \<times> world)" where
  "renderResolved E Null r w = Inr ('''', r, w)"
| "renderResolved E (Text s) r w = Inr ('''', pushFrame (plainFrame [Text s]) r, w)"
| "renderResolved E (Element tag attrs inner kids) r w =
     (case renderDOM E tag attrs inner kids r of
        Inl t \<Rightarrow> Inl t
      | Inr (s, r') \<Rightarrow> Inr (s, r', w))"
| "renderResolved E (Fragment kids) r w = Inr ('''', pushFrame (plainFrame kids) r, w)"
| "renderResolved E (Suspense None kids) r w = Inr ('''', pushFrame (plainFrame kids) r, w)"
| "renderResolved E (Suspense (Some fallback) kids) r w =
     (let fallbackFrame = Frame TNull fallback 0 ''<!--/$-->'' None;
          frame = Frame TSuspense kids 0 ''<!--/$-->'' (Some fallbackFrame);
          r' = pushFrame frame r
      in Inr (''<!--$-->'', r'\<lparr>suspenseDepth := suspenseDepth r' + 1\<rparr>, w))"
| "renderResolved E (Provider c v kids) r w =
     (let (r', w') = pushProvider c v r w
      in Inr ('''', pushFrame (Frame (TProvider c) kids 0 '''' None) r', w'))"
| "renderResolved E (Consumer c f) r w =
     Inr ('''', pushFrame (Frame TConsumer (f (slots w c (threadID r))) 0 '''' None) r, w)"
| "renderResolved E n r w = Inl (Failure InvalidElementType)"

definition render :: "encoder \<Rightarrow> node \<Rightarrow> renderer \<Rightarrow> world \<Rightarrow> thrown + (string \<times> renderer \<times> world)" where
  "render E child r w =
     (case child of
        Text text \<Rightarrow>
          if text = '''' then Inr ('''', r, w)
          else if makeStaticMarkup r then Inr (escapeTextForBrowser E text, r, w)
          else if previousWasTextNode r then Inr (''<!-- -->'' @ escapeTextForBrowser E text, r, w)
          else Inr (escapeTextForBrowser E text, r\<lparr>previousWasTextNode := True\<rparr>, w)
      | _ \<Rightarrow>
          (case resolve (settled w) child of
             Inl t \<Rightarrow> Inl t
           | Inr nextChild \<Rightarrow> renderResolved E nextChild r w))"

subsection \<open>The synchronous reader\<close>

text \<open>
  The local variables of \<^verbatim>\<open>read\<close> are the array \<open>out\<close> and the flag \<open>suspended\<close>.
  \<open>readExit\<close> is the branch of the loop body that leaves a frame, \<open>readChild\<close> the
  branch that renders the next child.
\<close>

definition advance :: "frame \<Rightarrow> frame" where
  "advance f = Frame (ftype f) (children f) (childIndex f + 1) (footer f) (fallbackFrame f)"

definition pushOut :: "string option list \<Rightarrow> nat \<Rightarrow> string \<Rightarrow> string option list" where
  "pushOut out d s = js_append (if length out \<le> d then out @ [Some ''''] else out) d s"

definition readExit ::
  "frame \<Rightarrow> frame list \<Rightarrow> renderer \<Rightarrow> world \<Rightarrow> string option list \<Rightarrow> bool \<Rightarrow>
     (error \<times> renderer \<times> world) + (renderer \<times> world \<times> string option list \<times> bool)" where
  "readExit frame rest r w out suspended =
     (let r1 = r\<lparr>previousWasTextNode := (if footer frame \<noteq> '''' then False else previousWasTextNode r),
                 stack := rest\<rparr>
      in case ftype frame of
           TProvider c \<Rightarrow>
             (case popProvider r1 w of
                Inl x \<Rightarrow> Inl x
              | Inr (r2, w2) \<Rightarrow> Inr (r2, w2, js_append out (suspenseDepth r2) (footer frame), suspended))
         | TSuspense \<Rightarrow>
             (let r2 = r1\<lparr>suspenseDepth := suspenseDepth r1 - 1\<rparr>;
                  (buffered, out1) = js_pop out
              in if suspended then
                   (case fallbackFrame frame of
                      None \<Rightarrow> Inl (NoFallbackFrame, r2, w)
                    | Some fb \<Rightarrow>
                        Inr (pushFrame fb r2, w, js_append out1 (suspenseDepth r2) ''<!--$!-->'', False))
                 else
                   Inr (r2, w,
                        js_append (js_append out1 (suspenseDepth r2) (js_str buffered))
                          (suspenseDepth r2) (footer frame),
                        suspended))
         | _ \<Rightarrow> Inr (r1, w, js_append out (suspenseDepth r1) (footer frame), suspended))"

definition readChild ::
  "encoder \<Rightarrow> frame \<Rightarrow> frame list \<Rightarrow> renderer \<Rightarrow> world \<Rightarrow> string option list \<Rightarrow>
     (error \<times> renderer \<times> world) + (renderer \<times> world \<times> string option list \<times> bool)" where
  "readChild E frame rest r w out =
     (let child = children frame ! childIndex frame;
          r1 = r\<lparr>stack := advance frame # rest\<rparr>
      in case render E child r1 w of
           Inl (Thenable p) \<Rightarrow>
             if suspenseDepth r1 > 0 then Inr (r1, w, pushOut out (suspenseDepth r1) '''', True)
             else Inl (UnhandledSuspension, r1, w)
         | Inl (Failure e) \<Rightarrow> Inl (e, r1, w)
         | Inr (s, r2, w2) \<Rightarrow> Inr (r2, w2, pushOut out (suspenseDepth r2) s, False))"

text \<open>
  The \<^verbatim>\<open>while\<close> loop of \<^verbatim>\<open>read\<close>, with fuel: \<open>None\<close> when the fuel runs out. The byte
  budget is a number or \<^verbatim>\<open>Infinity\<close>.
\<close>

fun readLoop ::
  "nat \<Rightarrow> encoder \<Rightarrow> enat \<Rightarrow> renderer \<Rightarrow> world \<Rightarrow> string option list \<Rightarrow> bool \<Rightarrow>
     ((error + string) \<times> renderer \<times> world) option" where
  "readLoop 0 E bytes r w out suspended = None"
| "readLoop (Suc n) E bytes r w out suspended =
     (case js_get out 0 of
        None \<Rightarrow> Some (Inl TypeError, r, w)
      | Some o0 \<Rightarrow>
          if \<not> enat (length o0) < bytes then Some (Inr o0, r, w)
          else
            (case stack r of
               [] \<Rightarrow> Some (Inr o0, r\<lparr>exhausted := True\<rparr>, freeThreadID (threadID r) w)
             | frame # rest \<Rightarrow>
                 (case (if suspended \<or> childIndex frame \<ge> length (children frame)
                        then readExit frame rest r w out suspended
                        else readChild E frame rest r w out) of
                    Inl (e, r', w') \<Rightarrow> Some (Inl e, r', w')
                  | Inr (r', w', out', suspended') \<Rightarrow> readLoop n E bytes r' w' out' suspended')))"

definition read ::
  "nat \<Rightarrow> encoder \<Rightarrow> enat \<Rightarrow> renderer \<Rightarrow> world \<Rightarrow> ((error + string option) \<times> renderer \<times> world) option" where
  "read fuel E bytes r w =
     (if exhausted r then Some (Inr None, r, w)
      else
        (case readLoop fuel E bytes r w [Some ''''] False of
           None \<Rightarrow> None
         | Some (Inl e, r', w') \<Rightarrow> Some (Inl e, r', w')
         | Some (Inr s, r', w') \<Rightarrow> Some (Inr (Some s), r', w')))"

text \<open>
  A caller that pulls with the same budget until \<^verbatim>\<open>read\<close> returns \<^verbatim>\<open>null\<close> and
  concatenates what it got.
\<close>

fun readUntilNull :: "nat \<Rightarrow> encoder \<Rightarrow> enat \<Rightarrow> renderer \<Rightarrow> world \<Rightarrow> (error + string) option" where
  "readUntilNull 0 E bytes r w = None"
| "readUntilNull (Suc n) E bytes r w =
     (case read n E bytes r w of
        None \<Rightarrow> None
      | Some (Inl e, r', w') \<Rightarrow> Some (Inl e)
      | Some (Inr None, r', w') \<Rightarrow> Some (Inr '''')
      | Some (Inr (Some s), r', w') \<Rightarrow>
          (case readUntilNull n E bytes r' w' of
             None \<Rightarrow> None
           | Some (Inl e) \<Rightarrow> Some (Inl e)
           | Some (Inr t) \<Rightarrow> Some (Inr (s @ t))))"

subsection \<open>The asynchronous reader\<close>

text \<open>The state of a promise: fulfilled with a value, rejected, or never settling.\<close>

datatype 'a settle = Fulfilled 'a | Rejected error | Unsettled

definition getClonedRenderContext :: "renderer \<Rightarrow> world \<Rightarrow> renderContext" where
  "getClonedRenderContext r w =
     \<lparr>rc_threadID = threadID r,
      rc_previousWasTextNode = previousWasTextNode r,
      rc_contextIndex = contextIndex r,
      rc_contextStack = contextStack r,
      rc_contextValues =
        map (\<lambda>context. case context of None \<Rightarrow> None | Some c \<Rightarrow> slots w c (threadID r))
          (contextStack r),
      rc_contextValueStack = contextValueStack r\<rparr>"

text \<open>
  The constructor of the subclass. The constructor of the base class runs first and
  allocates a thread id; with a render context the id is then overwritten by the one of
  the context, and the slots of the contexts on the cloned stack are set to the values
  recorded in the snapshot.
\<close>

definition seedSlots :: "ctxid option list \<Rightarrow> jsval list \<Rightarrow> threadID \<Rightarrow> world \<Rightarrow> world" where
  "seedSlots cs vals t w =
     fold (\<lambda>i w'. case js_get cs (int i) of
                     None \<Rightarrow> w'
                   | Some c \<Rightarrow> setSlot c t (js_get vals (int i)) w')
       [0..<length cs] w"

definition newRendererAsync :: "node \<Rightarrow> bool \<Rightarrow> renderContext option \<Rightarrow> world \<Rightarrow> renderer \<times> world" where
  "newRendererAsync kids static renderContext w =
     (let (r0, w0) = newRenderer kids static w;
          r1 = r0\<lparr>outQueue := [[Str '''']], isChildRenderer := False\<rparr>
      in case renderContext of
           None \<Rightarrow> (r1, w0)
         | Some rc \<Rightarrow>
             (r1\<lparr>isChildRenderer := True,
                 threadID := rc_threadID rc,
                 previousWasTextNode := rc_previousWasTextNode rc,
                 contextIndex := rc_contextIndex rc,
                 contextStack := rc_contextStack rc,
                 contextValueStack := rc_contextValueStack rc\<rparr>,
              seedSlots (rc_contextStack rc) (rc_contextValues rc) (rc_threadID rc) w0))"

text \<open>\<^verbatim>\<open>ReactDOMServerRendererAsync.destroy\<close>.\<close>

definition destroyAsync :: "renderer \<Rightarrow> world \<Rightarrow> error option \<times> renderer \<times> world" where
  "destroyAsync r w =
     (if \<not> exhausted r then
        (let r' = r\<lparr>exhausted := True\<rparr> in
         case clearProviders r' w of
           (Some e, w') \<Rightarrow> (Some e, r', w')
         | (None, w') \<Rightarrow>
             if \<not> isChildRenderer r' then (None, r', freeThreadID (threadID r') w')
             else (None, r', w'))
      else (None, r, w))"

definition renderEventually ::
  "encoder \<Rightarrow> node \<Rightarrow> bool \<Rightarrow> renderer \<Rightarrow> world \<Rightarrow> error + (fragment \<times> renderer \<times> world)" where
  "renderEventually E child canSuspend r w =
     (case render E child r w of
        Inr (s, r', w') \<Rightarrow> Inr (Str s, r', w')
      | Inl (Thenable p) \<Rightarrow>
          if canSuspend
          then Inr (Resume p child (makeStaticMarkup r) (getClonedRenderContext r w), r, w)
          else Inl UnhandledSuspension
      | Inl (Failure e) \<Rightarrow> Inl e)"


definition pushToOutQueue :: "fragment \<Rightarrow> renderer \<Rightarrow> error + renderer" where
  "pushToOutQueue x r =
     (let d = suspenseDepth r; q = outQueue r in
      if length q \<le> d then Inl TypeError
      else
        (case x of
           Str s \<Rightarrow>
             (case q ! d of
                [] \<Rightarrow> Inl TypeError
              | y # ys \<Rightarrow>
                  (case last (y # ys) of
                     Str t \<Rightarrow> Inr (r\<lparr>outQueue := q[d := butlast (y # ys) @ [Str (t @ s)]]\<rparr>)
                   | _ \<Rightarrow> Inr (r\<lparr>outQueue := q[d := q ! d @ [x]]\<rparr>)))
         | _ \<Rightarrow> Inr (r\<lparr>outQueue := q[d := q ! d @ [x]]\<rparr>)))"

definition asyncExit ::
  "frame \<Rightarrow> frame list \<Rightarrow> renderer \<Rightarrow> world \<Rightarrow> (error \<times> renderer \<times> world) + (renderer \<times> world)" where
  "asyncExit frame rest r w =
     (let r1 = r\<lparr>previousWasTextNode := (if footer frame \<noteq> '''' then False else previousWasTextNode r),
                 stack := rest\<rparr>
      in case ftype frame of
           TProvider c \<Rightarrow>
             (case popProvider r1 w of
                Inl x \<Rightarrow> Inl x
              | Inr (r2, w2) \<Rightarrow>
                  (case pushToOutQueue (Str (footer frame)) r2 of
                     Inl e \<Rightarrow> Inl (e, r2, w2)
                   | Inr r3 \<Rightarrow> Inr (r3, w2)))
         | TSuspense \<Rightarrow>
             (let r2 = r1\<lparr>suspenseDepth := suspenseDepth r1 - 1\<rparr> in
              case outQueue r2 of
                [] \<Rightarrow> Inl (TypeError, r2, w)
              | q0 # qs \<Rightarrow>
                  (let suspenseResults = last (q0 # qs);
                       r3 = r2\<lparr>outQueue := butlast (q0 # qs)\<rparr>
                   in case pushToOutQueue (Boundary suspenseResults (footer frame)) r3 of
                        Inl e \<Rightarrow> Inl (e, r3, w)
                      | Inr r4 \<Rightarrow> Inr (r4, w)))
         | _ \<Rightarrow>
             (case pushToOutQueue (Str (footer frame)) r1 of
                Inl e \<Rightarrow> Inl (e, r1, w)
              | Inr r2 \<Rightarrow> Inr (r2, w)))"

definition asyncChild ::
  "encoder \<Rightarrow> frame \<Rightarrow> frame list \<Rightarrow> renderer \<Rightarrow> world \<Rightarrow> (error \<times> renderer \<times> world) + (renderer \<times> world)" where
  "asyncChild E frame rest r w =
     (let child = children frame ! childIndex frame;
          r1 = r\<lparr>stack := advance frame # rest\<rparr>
      in case renderEventually E child (suspenseDepth r1 > 0 \<or> isChildRenderer r1) r1 w of
           Inl e \<Rightarrow> Inl (e, r1, w)
         | Inr (x, r2, w2) \<Rightarrow>
             (let r3 = (if length (outQueue r2) \<le> suspenseDepth r2
                        then r2\<lparr>outQueue := outQueue r2 @ [[Str '''']]\<rparr> else r2)
              in case pushToOutQueue x r3 of
                   Inl e \<Rightarrow> Inl (e, r3, w2)
                 | Inr r4 \<Rightarrow> Inr (r4, w2)))"

text \<open>
  \<^verbatim>\<open>this.outQueue[0][0].length < bytes\<close>: \<open>None\<close> when the access throws. A promise has no
  length, and the comparison with \<^verbatim>\<open>undefined\<close> is false.
\<close>

definition headBelow :: "fragment list list \<Rightarrow> enat \<Rightarrow> bool option" where
  "headBelow q bytes =
     (case q of
        [] \<Rightarrow> None
      | q0 # qs \<Rightarrow>
          (case q0 of
             [] \<Rightarrow> None
           | Str s # t \<Rightarrow> Some (enat (length s) < bytes)
           | _ # t \<Rightarrow> Some False))"

fun asyncLoop ::
  "nat \<Rightarrow> encoder \<Rightarrow> enat \<Rightarrow> renderer \<Rightarrow> world \<Rightarrow> ((error \<times> renderer \<times> world) + (renderer \<times> world)) option" where
  "asyncLoop 0 E bytes r w = None"
| "asyncLoop (Suc n) E bytes r w =
     (if exhausted r then Some (Inr (r, w))
      else
        (case headBelow (outQueue r) bytes of
           None \<Rightarrow> Some (Inl (TypeError, r, w))
         | Some False \<Rightarrow> Some (Inr (r, w))
         | Some True \<Rightarrow>
             (case stack r of
                [] \<Rightarrow> Some (Inr (r\<lparr>exhausted := True\<rparr>, freeThreadID (threadID r) w))
              | frame # rest \<Rightarrow>
                  (case (if childIndex frame \<ge> length (children frame)
                         then asyncExit frame rest r w
                         else asyncChild E frame rest r w) of
                     Inl x \<Rightarrow> Some (Inl x)
                   | Inr (r', w') \<Rightarrow> asyncLoop n E bytes r' w'))))"

text \<open>\<^verbatim>\<open>this.outQueue[0].length === 1 && this.outQueue[0][0].length === 0\<close>\<close>

definition isDrained :: "fragment list list \<Rightarrow> bool" where
  "isDrained q = (case q of [Str s] # qs \<Rightarrow> s = '''' | _ \<Rightarrow> False)"

text \<open>
  What a promise is fulfilled with, as JavaScript strings: \<^verbatim>\<open>null\<close> joins as the empty
  string and concatenates as \<^verbatim>\<open>"null"\<close>.
\<close>

definition js_join :: "string option list \<Rightarrow> string" where
  "js_join xs = concat (map (\<lambda>x. case x of None \<Rightarrow> '''' | Some s \<Rightarrow> s) xs)"

definition js_plus :: "string option \<Rightarrow> string" where
  "js_plus x = (case x of None \<Rightarrow> ''null'' | Some s \<Rightarrow> s)"

text \<open>\<^verbatim>\<open>Promise.all\<close>: rejected when one is rejected, else unsettled when one never settles.\<close>

fun allSettled :: "'a settle \<Rightarrow> 'a list settle \<Rightarrow> 'a list settle" where
  "allSettled (Rejected e) xs = Rejected e"
| "allSettled x (Rejected e) = Rejected e"
| "allSettled Unsettled xs = Unsettled"
| "allSettled x Unsettled = Unsettled"
| "allSettled (Fulfilled a) (Fulfilled as) = Fulfilled (a # as)"

text \<open>
  Awaiting the promises. The callbacks of the source run when the thenables settle; the
  model runs them when the value is first asked for, in the order of the queue, and
  threads the shared state through them. \<open>await\<close> gives the value of one queue entry,
  \<open>awaitAll\<close> is \<^verbatim>\<open>Promise.all\<close>, \<open>flattenAndResolveQueue\<close> and \<open>readAsync\<close> are the
  functions of the source; the callback \<^verbatim>\<open>cb\<close> of the former is the result. A promise
  awaited by \<^verbatim>\<open>flattenAndResolveQueue\<close> that is rejected leaves the read unsettled, since
  no handler is attached. All four take fuel. The source runs the callback of a thenable
  once; the model runs it each time the entry is awaited, so an entry that is still in
  the queue after a read that stayed unsettled is rendered again by the next read.
\<close>

fun await :: "nat \<Rightarrow> encoder \<Rightarrow> fragment \<Rightarrow> world \<Rightarrow> (string option settle \<times> world) option"
and awaitAll :: "nat \<Rightarrow> encoder \<Rightarrow> fragment list \<Rightarrow> world \<Rightarrow> (string option list settle \<times> world) option"
and flattenAndResolveQueue ::
  "nat \<Rightarrow> encoder \<Rightarrow> enat \<Rightarrow> fragment list list \<Rightarrow> world \<Rightarrow>
     (string option settle \<times> fragment list list \<times> world) option"
and readAsync ::
  "nat \<Rightarrow> encoder \<Rightarrow> enat \<Rightarrow> renderer \<Rightarrow> world \<Rightarrow> (string option settle \<times> renderer \<times> world) option"
where
  "await 0 E x w = None"
| "await (Suc n) E x w =
     (case x of
        Str s \<Rightarrow> Some (Fulfilled (Some s), w)
      | Boundary results foot \<Rightarrow>
          (case awaitAll n E results w of
             None \<Rightarrow> None
           | Some (Fulfilled res, w') \<Rightarrow> Some (Fulfilled (Some (js_join (res @ [Some foot]))), w')
           | Some (Rejected e, w') \<Rightarrow> Some (Rejected e, w')
           | Some (Unsettled, w') \<Rightarrow> Some (Unsettled, w'))
      | Resume p child static rc \<Rightarrow>
          (if p \<notin> set (settled w) then Some (Unsettled, w)
           else
             (let (r, w1) = newRendererAsync child static (Some rc) w in
              case readAsync n E \<infinity> r w1 of
                None \<Rightarrow> None
              | Some (Fulfilled markup, r', w') \<Rightarrow>
                  (case destroyAsync r' w' of
                     (Some e, r'', w'') \<Rightarrow> Some (Rejected e, w'')
                   | (None, r'', w'') \<Rightarrow> Some (Fulfilled markup, w''))
              | Some (Rejected e, r', w') \<Rightarrow>
                  (case destroyAsync r' w' of
                     (Some e', r'', w'') \<Rightarrow> Some (Rejected e', w'')
                   | (None, r'', w'') \<Rightarrow> Some (Rejected e, w''))
              | Some (Unsettled, r', w') \<Rightarrow> Some (Unsettled, w'))))"
| "awaitAll 0 E xs w = None"
| "awaitAll (Suc n) E xs w =
     (case xs of
        [] \<Rightarrow> Some (Fulfilled [], w)
      | x # xs' \<Rightarrow>
          (case await n E x w of
             None \<Rightarrow> None
           | Some (a, w') \<Rightarrow>
               (case awaitAll n E xs' w' of
                  None \<Rightarrow> None
                | Some (as, w'') \<Rightarrow> Some (allSettled a as, w''))))"
| "flattenAndResolveQueue 0 E bytes queue w = None"
| "flattenAndResolveQueue (Suc n) E bytes queue w =
     (case queue of
        [] \<Rightarrow> Some (Rejected TypeError, queue, w)
      | q0 # qs \<Rightarrow>
          (case q0 of
             [] \<Rightarrow> Some (Rejected TypeError, queue, w)
           | Str s0 # t \<Rightarrow>
               (if enat (length s0) < bytes \<and> length q0 > 1 then
                  (case t of
                     [] \<Rightarrow> Some (Rejected TypeError, queue, w)
                   | Str s1 # t' \<Rightarrow> flattenAndResolveQueue n E bytes ((Str (s0 @ s1) # t') # qs) w
                   | x # t' \<Rightarrow>
                       (if bytes \<noteq> \<infinity> \<and> length s0 > 0
                        then Some (Fulfilled (Some s0), (Str '''' # t) # qs, w)
                        else
                          (case await n E x w of
                             None \<Rightarrow> None
                           | Some (Fulfilled markup, w') \<Rightarrow>
                               flattenAndResolveQueue n E bytes ((Str (s0 @ js_plus markup) # t') # qs) w'
                           | Some (Rejected e, w') \<Rightarrow> Some (Unsettled, queue, w')
                           | Some (Unsettled, w') \<Rightarrow> Some (Unsettled, queue, w'))))
                else if length q0 = 1 \<and> length s0 = 0 then Some (Fulfilled (Some ''''), queue, w)
                else Some (Fulfilled (Some s0), (Str '''' # t) # qs, w))
           | x # t \<Rightarrow>
               (case await n E x w of
                  None \<Rightarrow> None
                | Some (res, w') \<Rightarrow> Some (res, (Str '''' # t) # qs, w'))))"
| "readAsync 0 E bytes r w = None"
| "readAsync (Suc n) E bytes r w =
     (if exhausted r \<and> isDrained (outQueue r)
      then Some (Fulfilled None, r, w)
      else
        (case asyncLoop n E bytes r w of
           None \<Rightarrow> None
         | Some (Inl (e, r', w')) \<Rightarrow> Some (Rejected e, r', w')
         | Some (Inr (r', w')) \<Rightarrow>
             (case flattenAndResolveQueue n E bytes (outQueue r') w' of
                None \<Rightarrow> None
              | Some (res, q', w'') \<Rightarrow> Some (res, r'\<lparr>outQueue := q'\<rparr>, w''))))"

text \<open>A caller that pulls until \<^verbatim>\<open>readAsync\<close> is fulfilled with \<^verbatim>\<open>null\<close>.\<close>

fun readAsyncUntilNull :: "nat \<Rightarrow> encoder \<Rightarrow> enat \<Rightarrow> renderer \<Rightarrow> world \<Rightarrow> string settle option" where
  "readAsyncUntilNull 0 E bytes r w = None"
| "readAsyncUntilNull (Suc n) E bytes r w =
     (case readAsync n E bytes r w of
        None \<Rightarrow> None
      | Some (Rejected e, r', w') \<Rightarrow> Some (Rejected e)
      | Some (Unsettled, r', w') \<Rightarrow> Some Unsettled
      | Some (Fulfilled None, r', w') \<Rightarrow> Some (Fulfilled '''')
      | Some (Fulfilled (Some s), r', w') \<Rightarrow>
          (case readAsyncUntilNull n E bytes r' w' of
             None \<Rightarrow> None
           | Some (Fulfilled t) \<Rightarrow> Some (Fulfilled (s @ t))
           | Some x \<Rightarrow> Some x))"

subsection \<open>Sessions as their callers drive them\<close>

text \<open>
  A caller of the synchronous renderer issues \<^verbatim>\<open>read\<close> and \<^verbatim>\<open>destroy\<close> calls in any
  order; a \<^verbatim>\<open>read\<close> that throws leaves the object usable by \<^verbatim>\<open>destroy\<close>.
\<close>

datatype call = Read enat | Destroy

fun calls :: "nat \<Rightarrow> encoder \<Rightarrow> call list \<Rightarrow> renderer \<Rightarrow> world \<Rightarrow> (renderer \<times> world) option" where
  "calls n E [] r w = Some (r, w)"
| "calls n E (Read bytes # cs) r w =
     (case read n E bytes r w of
        None \<Rightarrow> None
      | Some (res, r', w') \<Rightarrow> calls n E cs r' w')"
| "calls n E (Destroy # cs) r w =
     (case destroy r w of (e, r', w') \<Rightarrow> calls n E cs r' w')"

text \<open>
  The provider events of a traversal: entering a provider calls \<^verbatim>\<open>pushProvider\<close>, leaving
  its frame calls \<^verbatim>\<open>popProvider\<close>. \<open>nesting d es\<close> is the number of providers left open
  by the events \<open>es\<close> started at depth \<open>d\<close>, and \<open>None\<close> when an exit has no open entry.
\<close>

datatype scopeEvent = Enter ctxid jsval | Exit

fun runScope ::
  "scopeEvent list \<Rightarrow> renderer \<Rightarrow> world \<Rightarrow> (error \<times> renderer \<times> world) + (renderer \<times> world)" where
  "runScope [] r w = Inr (r, w)"
| "runScope (Enter c v # es) r w = (case pushProvider c v r w of (r', w') \<Rightarrow> runScope es r' w')"
| "runScope (Exit # es) r w =
     (case popProvider r w of
        Inl x \<Rightarrow> Inl x
      | Inr (r', w') \<Rightarrow> runScope es r' w')"

fun nesting :: "nat \<Rightarrow> scopeEvent list \<Rightarrow> nat option" where
  "nesting d [] = Some d"
| "nesting d (Enter c v # es) = nesting (Suc d) es"
| "nesting d (Exit # es) = (case d of 0 \<Rightarrow> None | Suc d' \<Rightarrow> nesting d' es)"

text \<open>
  The invariant of the context stacks during a traversal: the open entries are those of
  the provider frames on the stack, draining them gives back the slot values \<open>base\<close>
  of the start of the session, and the fallback frame kept by a frame is the plain frame
  that \<^verbatim>\<open>render\<close> builds.
\<close>

definition isProviderFrame :: "frame \<Rightarrow> bool" where
  "isProviderFrame f = (case ftype f of TProvider c \<Rightarrow> True | _ \<Rightarrow> False)"

definition fallbackPlain :: "frame \<Rightarrow> bool" where
  "fallbackPlain f =
     (case fallbackFrame f of
        None \<Rightarrow> True
      | Some fb \<Rightarrow> ftype fb = TNull \<and> fallbackFrame fb = None)"

definition scopeInv :: "(ctxid \<Rightarrow> threadID \<Rightarrow> jsval) \<Rightarrow> renderer \<Rightarrow> world \<Rightarrow> bool" where
  "scopeInv base r w =
     (int (length (filter isProviderFrame (stack r))) = contextIndex r + 1
      \<and> list_all fallbackPlain (stack r)
      \<and> fst (clearProviders r w) = None
      \<and> slots (snd (clearProviders r w)) = base)"

text \<open>An encoder and a shared state on which the definitions are evaluated.\<close>

definition sampleEncoder :: encoder where
  "sampleEncoder =
     \<lparr>escapeTextForBrowser = (\<lambda>s. s),
      createMarkupForRoot = ''data-reactroot'',
      omittedCloseTags = (\<lambda>t. t = ''br'')\<rparr>"

definition sampleWorld :: "promise list \<Rightarrow> world" where
  "sampleWorld ps = \<lparr>slots = (\<lambda>c t. None), held = [], released = [], settled = ps\<rparr>"

text \<open>
  What a step of a traversal keeps, and what holds of a session between the calls of its
  caller: until it is exhausted its open scopes drain to the values of the start and its
  id has not been released; afterwards the slots are those of the start and the id has
  been released once.
\<close>

definition stepInv :: "(ctxid \<Rightarrow> threadID \<Rightarrow> jsval) \<Rightarrow> renderer \<Rightarrow> world \<Rightarrow> renderer \<Rightarrow> world \<Rightarrow> bool" where
  "stepInv base r w r' w' =
     (scopeInv base r' w' \<and> threadID r' = threadID r \<and> exhausted r' = exhausted r
      \<and> released w' = released w \<and> held w' = held w \<and> settled w' = settled w)"

definition sessionInv :: "renderer \<Rightarrow> world \<Rightarrow> renderer \<Rightarrow> world \<Rightarrow> bool" where
  "sessionInv r0 w0 r w =
     (threadID r = threadID r0
      \<and> (if exhausted r
          then slots w = slots w0 \<and> released w = released w0 @ [threadID r0]
          else scopeInv (slots w0) r w \<and> released w = released w0))"

text \<open>
  The encoding of a run of text leaves as the claim on separators describes it, kept
  apart from the renderer: an empty text contributes nothing; in static markup no
  separator is written; otherwise a text is preceded by \<^verbatim>\<open><!-- -->\<close> exactly when a
  text was the last thing written (\<open>prev\<close>).
\<close>

fun separatedTexts :: "encoder \<Rightarrow> bool \<Rightarrow> bool \<Rightarrow> string list \<Rightarrow> string" where
  "separatedTexts E static prev [] = ''''"
| "separatedTexts E static prev (t # ts) =
     (if t = '''' then separatedTexts E static prev ts
      else if static then escapeTextForBrowser E t @ separatedTexts E static prev ts
      else (if prev then ''<!-- -->'' else '''') @ escapeTextForBrowser E t
           @ separatedTexts E static True ts)"
subsection \<open>The traversal that the two readers share\<close>

text \<open>
  A tree without a pending node: no \<open>Suspending\<close> node anywhere in it, the fallback of a
  boundary and whatever a consumer renders included.
\<close>

primrec noPending :: "node \<Rightarrow> bool" where
  "noPending (Text s) = True"
| "noPending Null = True"
| "noPending (Element tag attrs inner kids) = list_all noPending kids"
| "noPending (Fragment kids) = list_all noPending kids"
| "noPending (Suspense fbk kids) =
     (pred_option (list_all noPending) fbk \<and> list_all noPending kids)"
| "noPending (Provider c v kids) = list_all noPending kids"
| "noPending (Consumer c f) = (\<forall>v. list_all noPending (f v))"
| "noPending (Component n) = noPending n"
| "noPending (Suspending p n) = False"
| "noPending Throwing = True"

text \<open>
  One iteration of the loops of \<^verbatim>\<open>read\<close> and \<^verbatim>\<open>readAsync\<close> without the output buffers:
  what the iteration does to the renderer and to the shared state, and the string that it
  hands to the buffer of the current depth (the footer of the frame that is left, or what
  \<^verbatim>\<open>render\<close> returned). \<open>steps k\<close> is \<open>k\<close> iterations, with the strings concatenated; with
  an empty stack nothing happens any more.
\<close>

definition tstep :: "encoder \<Rightarrow> renderer \<Rightarrow> world \<Rightarrow> error + (string \<times> renderer \<times> world)" where
  "tstep E r w =
     (case stack r of
        [] \<Rightarrow> Inr ('''', r, w)
      | frame # rest \<Rightarrow>
          if childIndex frame \<ge> length (children frame) then
            (let r1 = r\<lparr>previousWasTextNode := (if footer frame \<noteq> '''' then False else previousWasTextNode r),
                        stack := rest\<rparr>
             in case ftype frame of
                  TProvider c \<Rightarrow>
                    (case popProvider r1 w of
                       Inl (e, r2, w2) \<Rightarrow> Inl e
                     | Inr (r2, w2) \<Rightarrow> Inr (footer frame, r2, w2))
                | TSuspense \<Rightarrow> Inr (footer frame, r1\<lparr>suspenseDepth := suspenseDepth r1 - 1\<rparr>, w)
                | _ \<Rightarrow> Inr (footer frame, r1, w))
          else
            (case render E (children frame ! childIndex frame) (r\<lparr>stack := advance frame # rest\<rparr>) w of
               Inl (Thenable p) \<Rightarrow> Inl UnhandledSuspension
             | Inl (Failure e) \<Rightarrow> Inl e
             | Inr (s, r2, w2) \<Rightarrow> Inr (s, r2, w2)))"

fun steps :: "nat \<Rightarrow> encoder \<Rightarrow> renderer \<Rightarrow> world \<Rightarrow> error + (string \<times> renderer \<times> world)" where
  "steps 0 E r w = Inr ('''', r, w)"
| "steps (Suc k) E r w =
     (case tstep E r w of
        Inl e \<Rightarrow> Inl e
      | Inr (s, r', w') \<Rightarrow>
          (case steps k E r' w' of
             Inl e \<Rightarrow> Inl e
           | Inr (t, r'', w'') \<Rightarrow> Inr (s @ t, r'', w'')))"

text \<open>
  \<open>reaches E r w st\<close>: the iterations from \<open>(r, w)\<close> end in an error or come to the
  frame stack \<open>st\<close>. \<open>fin t\<close>: after \<^verbatim>\<open>render\<close> of \<open>t\<close> the iterations end in an error or
  come back to the stack that \<^verbatim>\<open>render\<close> started from; \<open>finR\<close> is the same for the part of
  \<^verbatim>\<open>render\<close> after \<^verbatim>\<open>resolve\<close>. \<open>ran k E r w Y\<close>: \<open>k\<close> iterations from \<open>(r, w)\<close> end in
  the error \<open>Y\<close>, or empty the stack and have handed out the text \<open>Y\<close>.
\<close>

definition reaches :: "encoder \<Rightarrow> renderer \<Rightarrow> world \<Rightarrow> frame list \<Rightarrow> bool" where
  "reaches E r w st =
     (\<exists>k. (\<exists>e. steps k E r w = Inl e) \<or> (\<exists>s r' w'. steps k E r w = Inr (s, r', w') \<and> stack r' = st))"

definition fin :: "node \<Rightarrow> bool" where
  "fin t = (\<forall>E r w s r1 w1. render E t r w = Inr (s, r1, w1) \<longrightarrow> reaches E r1 w1 (stack r))"

definition finR :: "node \<Rightarrow> bool" where
  "finR t = (\<forall>E r w s r1 w1. renderResolved E t r w = Inr (s, r1, w1) \<longrightarrow> reaches E r1 w1 (stack r))"

definition ran :: "nat \<Rightarrow> encoder \<Rightarrow> renderer \<Rightarrow> world \<Rightarrow> error + string \<Rightarrow> bool" where
  "ran k E r w Y =
     (case steps k E r w of
        Inl e \<Rightarrow> Y = Inl e
      | Inr (s, rf, wz) \<Rightarrow> Y = Inr s \<and> stack rf = [])"

text \<open>
  What holds of the renderer during a traversal of a tree without pending nodes: the
  boundary depth is the number of boundary frames on the stack, and no frame has a
  pending node among its children.
\<close>

definition isSuspenseFrame :: "frame \<Rightarrow> bool" where
  "isSuspenseFrame f = (ftype f = TSuspense)"

definition travInv :: "renderer \<Rightarrow> bool" where
  "travInv r =
     (suspenseDepth r = length (filter isSuspenseFrame (stack r))
      \<and> list_all (\<lambda>f. list_all noPending (children f)) (stack r))"

text \<open>
  The rest of a call of \<^verbatim>\<open>read\<close> whose loop is at the buffers \<open>out\<close>, followed by the
  calls that the caller makes until \<^verbatim>\<open>null\<close>.
\<close>

definition finishRead ::
  "nat \<Rightarrow> nat \<Rightarrow> encoder \<Rightarrow> enat \<Rightarrow> renderer \<Rightarrow> world \<Rightarrow> string option list \<Rightarrow> (error + string) option" where
  "finishRead n1 n2 E b r w out =
     (case readLoop n1 E b r w out False of
        None \<Rightarrow> None
      | Some (Inl e, r', w') \<Rightarrow> Some (Inl e)
      | Some (Inr s, r', w') \<Rightarrow>
          (case readUntilNull n2 E b r' w' of
             None \<Rightarrow> None
           | Some (Inl e) \<Rightarrow> Some (Inl e)
           | Some (Inr t) \<Rightarrow> Some (Inr (s @ t))))"

text \<open>
  The text that a queue entry stands for when no re-rendering is pending in it
  (\<open>pureF\<close>): a string is itself, the promise of a boundary is the texts of its entries
  and then its closing marker. \<open>fuelF\<close> bounds the fuel that awaiting an entry takes.
  \<open>qInv\<close> is the shape of the queue during a traversal without pending nodes: one level
  for each depth up to the current one, each level a string followed by entries without
  a pending re-rendering.
\<close>

primrec flatF :: "fragment \<Rightarrow> string" where
  "flatF (Str s) = s"
| "flatF (Resume p c st rc) = ''''"
| "flatF (Boundary frs foot) = concat (map flatF frs) @ foot"

primrec pureF :: "fragment \<Rightarrow> bool" where
  "pureF (Str s) = True"
| "pureF (Resume p c st rc) = False"
| "pureF (Boundary frs foot) = list_all pureF frs"

primrec fuelF :: "fragment \<Rightarrow> nat" where
  "fuelF (Str s) = 1"
| "fuelF (Resume p c st rc) = 1"
| "fuelF (Boundary frs foot) = Suc (Suc (sum_list (map fuelF frs)))"

definition flatFs :: "fragment list \<Rightarrow> string" where
  "flatFs frs = concat (map flatF frs)"

definition flatQ :: "fragment list list \<Rightarrow> string" where
  "flatQ q = concat (map flatFs q)"

definition qInv :: "renderer \<Rightarrow> bool" where
  "qInv r =
     (length (outQueue r) = Suc (suspenseDepth r)
      \<and> list_all (\<lambda>l. \<exists>s t. l = Str s # t \<and> list_all pureF t) (outQueue r))"

text \<open>
  What is left of a call of \<^verbatim>\<open>readAsync\<close> after its loop, followed by the calls that the
  caller makes until \<^verbatim>\<open>null\<close>; and the same from the loop on.
\<close>

definition afterLoop ::
  "nat \<Rightarrow> nat \<Rightarrow> encoder \<Rightarrow> enat \<Rightarrow> renderer \<Rightarrow> world \<Rightarrow> string settle option" where
  "afterLoop n2 n3 E b r w =
     (case flattenAndResolveQueue n2 E b (outQueue r) w of
        None \<Rightarrow> None
      | Some (Rejected e, q', w') \<Rightarrow> Some (Rejected e)
      | Some (Unsettled, q', w') \<Rightarrow> Some Unsettled
      | Some (Fulfilled None, q', w') \<Rightarrow> Some (Fulfilled '''')
      | Some (Fulfilled (Some s), q', w') \<Rightarrow>
          (case readAsyncUntilNull n3 E b (r\<lparr>outQueue := q'\<rparr>) w' of
             None \<Rightarrow> None
           | Some (Fulfilled t) \<Rightarrow> Some (Fulfilled (s @ t))
           | Some x \<Rightarrow> Some x))"

definition finishAsync ::
  "nat \<Rightarrow> nat \<Rightarrow> nat \<Rightarrow> encoder \<Rightarrow> enat \<Rightarrow> renderer \<Rightarrow> world \<Rightarrow> string settle option" where
  "finishAsync n1 n2 n3 E b r w =
     (case asyncLoop n1 E b r w of
        None \<Rightarrow> None
      | Some (Inl (e, r', w')) \<Rightarrow> Some (Rejected e)
      | Some (Inr (r', w')) \<Rightarrow> afterLoop n2 n3 E b r' w')"

text \<open>A tree without pending nodes on which the two readers are evaluated.\<close>

definition sampleTree :: node where
  "sampleTree =
     Element ''div'' '''' None
       [Text ''a'',
        Suspense (Some [Text ''f'']) [Text ''b'', Consumer 0 (\<lambda>v. [Text ''c''])],
        Provider 0 (Some 1) [Text ''d'']]"

section \<open>Properties\<close>

subsection \<open>The context stacks\<close>

lemma js_get_js_set: "js_get (js_set xs i v) j = (if i = j \<and> 0 \<le> i then v else js_get xs j)"
  by (auto simp: js_get_def js_set_def nth_append nth_list_update)

lemma js_get_drop: "0 \<le> j \<Longrightarrow> js_get (drop m xs) j = js_get xs (int m + j)"
  by (auto simp: js_get_def nat_add_distrib)

lemma setSlot_restore [simp]: "setSlot c t (slots w c t) (setSlot c t v w) = w"
  by (simp add: setSlot_def fun_upd_idem)

lemma setSlot_fields [simp]:
  "held (setSlot c t v w) = held w" "released (setSlot c t v w) = released w"
  "settled (setSlot c t v w) = settled w"
  by (simp_all add: setSlot_def)

lemma clearFrom_cong:
  "(\<And>i. i < n \<Longrightarrow> js_get cs (int i) = js_get cs' (int i) \<and> js_get vs (int i) = js_get vs' (int i))
   \<Longrightarrow> clearFrom n cs vs t w = clearFrom n cs' vs' t w"
  by (induction n arbitrary: w) (auto split: option.splits)

lemma clearFrom_fields [simp]:
  "held (snd (clearFrom n cs vs t w)) = held w"
  "released (snd (clearFrom n cs vs t w)) = released w"
  "settled (snd (clearFrom n cs vs t w)) = settled w"
  by (induction n arbitrary: w; simp split: option.splits)+

lemma pushProvider_fields:
  "pushProvider c v r w = (r', w') \<Longrightarrow>
     contextIndex r' = contextIndex r + 1 \<and> threadID r' = threadID r \<and> stack r' = stack r
     \<and> exhausted r' = exhausted r \<and> suspenseDepth r' = suspenseDepth r
     \<and> previousWasTextNode r' = previousWasTextNode r \<and> makeStaticMarkup r' = makeStaticMarkup r
     \<and> isChildRenderer r' = isChildRenderer r \<and> outQueue r' = outQueue r
     \<and> held w' = held w \<and> released w' = released w \<and> settled w' = settled w"
  by (auto simp: pushProvider_def Let_def)

text \<open>Draining the entries above the first \<open>m\<close> ones, before and after a push or a pop.\<close>

lemma drain_push:
  assumes n: "contextIndex r + 1 = int m + int d" and p: "pushProvider c v r w = (r', w')"
  shows "clearFrom (Suc d) (drop m (contextStack r')) (drop m (contextValueStack r')) (threadID r) w'
         = clearFrom d (drop m (contextStack r)) (drop m (contextValueStack r)) (threadID r) w"
proof -
  have cs: "contextStack r' = js_set (contextStack r) (int m + int d) (Some c)"
    and vs: "contextValueStack r' = js_set (contextValueStack r) (int m + int d) (slots w c (threadID r))"
    and w': "w' = setSlot c (threadID r) v w"
    using p n by (auto simp: pushProvider_def Let_def)
  have "clearFrom (Suc d) (drop m (contextStack r')) (drop m (contextValueStack r')) (threadID r) w'
        = clearFrom d (drop m (contextStack r')) (drop m (contextValueStack r')) (threadID r) w"
    by (simp add: cs vs js_get_drop js_get_js_set w')
  also have "\<dots> = clearFrom d (drop m (contextStack r)) (drop m (contextValueStack r)) (threadID r) w"
    by (rule clearFrom_cong) (auto simp: cs vs js_get_drop js_get_js_set)
  finally show ?thesis .
qed

lemma drain_pop:
  assumes n: "contextIndex r = int m + int d"
    and ok: "fst (clearFrom (Suc d) (drop m (contextStack r)) (drop m (contextValueStack r)) (threadID r) w) = None"
  shows "\<exists>r' w'. popProvider r w = Inr (r', w')
           \<and> clearFrom d (drop m (contextStack r')) (drop m (contextValueStack r')) (threadID r) w'
             = clearFrom (Suc d) (drop m (contextStack r)) (drop m (contextValueStack r)) (threadID r) w
           \<and> contextIndex r' = contextIndex r - 1 \<and> threadID r' = threadID r
           \<and> stack r' = stack r \<and> exhausted r' = exhausted r \<and> suspenseDepth r' = suspenseDepth r
           \<and> previousWasTextNode r' = previousWasTextNode r \<and> makeStaticMarkup r' = makeStaticMarkup r
           \<and> isChildRenderer r' = isChildRenderer r \<and> outQueue r' = outQueue r
           \<and> held w' = held w \<and> released w' = released w \<and> settled w' = settled w"
proof -
  from ok obtain c where c: "js_get (contextStack r) (int m + int d) = Some c"
    by (cases "js_get (contextStack r) (int m + int d)") (auto simp: js_get_drop)
  let ?r' = "r\<lparr>contextStack := js_set (contextStack r) (int m + int d) None,
                 contextValueStack := js_set (contextValueStack r) (int m + int d) None,
                 contextIndex := int m + int d - 1\<rparr>"
  let ?w' = "setSlot c (threadID r) (js_get (contextValueStack r) (int m + int d)) w"
  have pop: "popProvider r w = Inr (?r', ?w')"
    by (simp add: popProvider_def Let_def c n)
  have "clearFrom d (drop m (contextStack ?r')) (drop m (contextValueStack ?r')) (threadID r) ?w'
        = clearFrom d (drop m (contextStack r)) (drop m (contextValueStack r)) (threadID r) ?w'"
    by (rule clearFrom_cong) (auto simp: js_get_drop js_get_js_set)
  also have "\<dots> = clearFrom (Suc d) (drop m (contextStack r)) (drop m (contextValueStack r)) (threadID r) w"
    by (simp add: c js_get_drop)
  finally show ?thesis using pop n by simp
qed

lemma clearProviders_push:
  assumes "- 1 \<le> contextIndex r" and "pushProvider c v r w = (r', w')"
  shows "clearProviders r' w' = clearProviders r w"
proof -
  obtain n where n: "contextIndex r + 1 = int 0 + int n"
    using assms(1) by (metis add.commute add.left_neutral diff_ge_0_iff_ge int_ops(1) minus_add_cancel nonneg_int_cases uminus_add_conv_diff)
  have idx: "contextIndex r' + 1 = int (Suc n)" and tid: "threadID r' = threadID r"
    using pushProvider_fields[OF assms(2)] n by simp_all
  show ?thesis
    unfolding clearProviders_def idx tid nat_int using drain_push[OF n assms(2)] n by simp
qed

lemma clearProviders_pop:
  assumes "0 \<le> contextIndex r" and "fst (clearProviders r w) = None"
  shows "\<exists>r' w'. popProvider r w = Inr (r', w') \<and> clearProviders r' w' = clearProviders r w
           \<and> contextIndex r' = contextIndex r - 1 \<and> threadID r' = threadID r
           \<and> stack r' = stack r \<and> exhausted r' = exhausted r \<and> suspenseDepth r' = suspenseDepth r
           \<and> previousWasTextNode r' = previousWasTextNode r \<and> makeStaticMarkup r' = makeStaticMarkup r
           \<and> isChildRenderer r' = isChildRenderer r \<and> outQueue r' = outQueue r
           \<and> held w' = held w \<and> released w' = released w \<and> settled w' = settled w"
proof -
  obtain n where n: "contextIndex r = int 0 + int n"
    using assms(1) nonneg_int_cases by fastforce
  have n1: "contextIndex r + 1 = int (Suc n)" using n by simp
  have ok: "fst (clearFrom (Suc n) (drop 0 (contextStack r)) (drop 0 (contextValueStack r)) (threadID r) w) = None"
    using assms(2) unfolding clearProviders_def n1 nat_int by simp
  from drain_pop[OF n ok] obtain r' w' where
    *: "popProvider r w = Inr (r', w')"
       "clearFrom n (drop 0 (contextStack r')) (drop 0 (contextValueStack r')) (threadID r) w'
         = clearFrom (Suc n) (drop 0 (contextStack r)) (drop 0 (contextValueStack r)) (threadID r) w"
       "contextIndex r' = contextIndex r - 1" "threadID r' = threadID r"
       "stack r' = stack r" "exhausted r' = exhausted r" "suspenseDepth r' = suspenseDepth r"
       "previousWasTextNode r' = previousWasTextNode r" "makeStaticMarkup r' = makeStaticMarkup r"
       "isChildRenderer r' = isChildRenderer r" "outQueue r' = outQueue r"
       "held w' = held w" "released w' = released w" "settled w' = settled w"
    by blast
  have ci': "contextIndex r' + 1 = int n" using *(3) n by simp
  have "clearProviders r' w' = clearProviders r w"
    unfolding clearProviders_def ci' n1 nat_int using *(2,4) by simp
  with * show ?thesis by simp
qed

lemma clearProviders_empty: "contextIndex r = - 1 \<Longrightarrow> clearProviders r w = (None, w)"
  by (simp add: clearProviders_def)

subsection \<open>Provider events\<close>

lemma runScope_append:
  "runScope (es @ fs) r w =
     (case runScope es r w of Inl x \<Rightarrow> Inl x | Inr (r', w') \<Rightarrow> runScope fs r' w')"
  by (induction es r w rule: runScope.induct) (auto split: sum.splits prod.splits)

lemma nesting_shift: "nesting d es = Some d' \<Longrightarrow> nesting (d + k) es = Some (d' + k)"
proof (induction es arbitrary: d)
  case Nil
  then show ?case by simp
next
  case (Cons e es)
  show ?case
  proof (cases e)
    case (Enter c v)
    then show ?thesis using Cons.IH[of "Suc d"] Cons.prems by simp
  next
    case Exit
    then show ?thesis using Cons.IH Cons.prems by (cases d) auto
  qed
qed

lemma runScope_drain:
  assumes "nesting d es = Some d'" and "contextIndex r + 1 = int m + int d"
    and "fst (clearFrom d (drop m (contextStack r)) (drop m (contextValueStack r)) (threadID r) w) = None"
  shows "\<exists>r' w'. runScope es r w = Inr (r', w') \<and> contextIndex r' + 1 = int m + int d'
            \<and> threadID r' = threadID r
            \<and> clearFrom d' (drop m (contextStack r')) (drop m (contextValueStack r')) (threadID r) w'
              = clearFrom d (drop m (contextStack r)) (drop m (contextValueStack r)) (threadID r) w"
  using assms
proof (induction es arbitrary: d r w)
  case Nil
  then show ?case by simp
next
  case (Cons e es)
  show ?case
  proof (cases e)
    case (Enter c v)
    obtain r1 w1 where p: "pushProvider c v r w = (r1, w1)" by (cases "pushProvider c v r w")
    note dp = drain_push[OF Cons.prems(2) p]
    have f: "contextIndex r1 + 1 = int m + int (Suc d)" "threadID r1 = threadID r"
      using pushProvider_fields[OF p] Cons.prems(2) by simp_all
    have n: "nesting (Suc d) es = Some d'" using Cons.prems(1) Enter by simp
    have ok: "fst (clearFrom (Suc d) (drop m (contextStack r1)) (drop m (contextValueStack r1)) (threadID r1) w1) = None"
      using dp Cons.prems(3) f(2) by simp
    from Cons.IH[OF n f(1) ok] dp f(2) p Enter show ?thesis by simp
  next
    case Exit
    with Cons.prems(1) obtain d0 where d: "d = Suc d0" and n: "nesting d0 es = Some d'"
      by (cases d) auto
    have ci: "contextIndex r = int m + int d0" using Cons.prems(2) d by simp
    have ok: "fst (clearFrom (Suc d0) (drop m (contextStack r)) (drop m (contextValueStack r)) (threadID r) w) = None"
      using Cons.prems(3) d by simp
    from drain_pop[OF ci ok] obtain r1 w1 where
      p: "popProvider r w = Inr (r1, w1)"
      and dp: "clearFrom d0 (drop m (contextStack r1)) (drop m (contextValueStack r1)) (threadID r) w1
         = clearFrom (Suc d0) (drop m (contextStack r)) (drop m (contextValueStack r)) (threadID r) w"
      and f: "contextIndex r1 = contextIndex r - 1" "threadID r1 = threadID r" by blast
    have ci1: "contextIndex r1 + 1 = int m + int d0" using f ci by simp
    have ok1: "fst (clearFrom d0 (drop m (contextStack r1)) (drop m (contextValueStack r1)) (threadID r1) w1) = None"
      using dp ok f(2) by simp
    from Cons.IH[OF n ci1 ok1] dp f(2) p Exit d show ?thesis by simp
  qed
qed

lemma newRenderer_fields:
  "newRenderer kids static w0 = (r0, w1) \<Longrightarrow>
     contextIndex r0 = - 1 \<and> \<not> exhausted r0 \<and> slots w1 = slots w0 \<and> released w1 = released w0
     \<and> settled w1 = settled w0 \<and> suspenseDepth r0 = 0 \<and> makeStaticMarkup r0 = static
     \<and> \<not> previousWasTextNode r0 \<and> \<not> isChildRenderer r0
     \<and> stack r0 = [Frame TNull (flattenTopLevelChildren kids) 0 '''' None]"
  by (auto simp: newRenderer_def allocThreadID_def Let_def split: prod.splits)


lemma runScope_fresh:
  assumes ci0: "contextIndex r0 = - 1" and n: "nesting 0 es = Some d"
  shows "\<exists>r w. runScope es r0 w1 = Inr (r, w) \<and> contextIndex r = int d - 1
                  \<and> clearProviders r w = (None, w1) \<and> (d = 0 \<longrightarrow> w = w1)"
proof -
  have a: "contextIndex r0 + 1 = int 0 + int 0" using ci0 by simp
  have b: "fst (clearFrom 0 (drop 0 (contextStack r0)) (drop 0 (contextValueStack r0)) (threadID r0) w1) = None"
    by simp
  from runScope_drain[OF n a b] obtain r w where
    *: "runScope es r0 w1 = Inr (r, w)" "contextIndex r + 1 = int 0 + int d" "threadID r = threadID r0"
       "clearFrom d (drop 0 (contextStack r)) (drop 0 (contextValueStack r)) (threadID r0) w = (None, w1)"
    by auto
  have cp: "clearProviders r w = (None, w1)"
    unfolding clearProviders_def using * by (simp add: nat_int)
  have "d = 0 \<longrightarrow> w = w1" using cp *(2) by (auto simp: clearProviders_def)
  with * cp show ?thesis by auto
qed

lemma runScope_matching:
  assumes ci0: "contextIndex r0 = - 1" and n: "nesting 0 pre = Some d" and b: "nesting 0 xs = Some 0"
  shows "\<exists>r w r'. runScope pre r0 w1 = Inr (r, w)
                  \<and> runScope (pre @ Enter c v # xs @ [Exit]) r0 w1 = Inr (r', w)
                  \<and> contextIndex r' = contextIndex r"
proof -
  from runScope_fresh[OF ci0 n] obtain r w where
    r: "runScope pre r0 w1 = Inr (r, w)" "contextIndex r = int d - 1" by blast
  obtain r1 w2 where p: "pushProvider c v r w = (r1, w2)" by (cases "pushProvider c v r w")
  have a: "contextIndex r + 1 = int d + int 0" using r(2) by simp
  have f1: "contextIndex r1 + 1 = int d + int (Suc 0)" "threadID r1 = threadID r"
    using pushProvider_fields[OF p] r(2) by simp_all
  have d1: "clearFrom (Suc 0) (drop d (contextStack r1)) (drop d (contextValueStack r1)) (threadID r) w2 = (None, w)"
    using drain_push[OF a p] by simp
  have ok1: "fst (clearFrom (Suc 0) (drop d (contextStack r1)) (drop d (contextValueStack r1)) (threadID r1) w2) = None"
    using d1 f1(2) by simp
  have nx: "nesting (Suc 0) xs = Some (Suc 0)" using nesting_shift[OF b, of "Suc 0"] by simp
  from runScope_drain[OF nx f1(1) ok1] obtain r2 w3 where
    x: "runScope xs r1 w2 = Inr (r2, w3)" "contextIndex r2 + 1 = int d + int (Suc 0)"
       "threadID r2 = threadID r1"
       "clearFrom (Suc 0) (drop d (contextStack r2)) (drop d (contextValueStack r2)) (threadID r1) w3
        = clearFrom (Suc 0) (drop d (contextStack r1)) (drop d (contextValueStack r1)) (threadID r1) w2"
    by blast
  have ci2: "contextIndex r2 = int d + int 0" using x(2) by simp
  have ok2: "fst (clearFrom (Suc 0) (drop d (contextStack r2)) (drop d (contextValueStack r2)) (threadID r2) w3) = None"
    using x(3,4) ok1 by simp
  from drain_pop[OF ci2 ok2] obtain r3 w4 where
    y: "popProvider r2 w3 = Inr (r3, w4)"
       "clearFrom 0 (drop d (contextStack r3)) (drop d (contextValueStack r3)) (threadID r2) w4
        = clearFrom (Suc 0) (drop d (contextStack r2)) (drop d (contextValueStack r2)) (threadID r2) w3"
       "contextIndex r3 = contextIndex r2 - 1"
    by blast
  have "w4 = w" using y(2) x(3,4) d1 f1(2) by simp
  moreover have "contextIndex r3 = contextIndex r" using y(3) ci2 r(2) by simp
  moreover have "runScope (pre @ Enter c v # xs @ [Exit]) r0 w1 = Inr (r3, w4)"
    by (simp add: runScope_append r(1) p x(1) y(1))
  ultimately show ?thesis using r(1) by blast
qed

subsection \<open>The invariant of a traversal\<close>

lemma isProviderFrame_simps [simp]:
  "isProviderFrame (Frame TNull k i f b) = False"
  "isProviderFrame (Frame (TTag t) k i f b) = False"
  "isProviderFrame (Frame (TProvider c) k i f b) = True"
  "isProviderFrame (Frame TConsumer k i f b) = False"
  "isProviderFrame (Frame TSuspense k i f b) = False"
  "isProviderFrame (advance fr) = isProviderFrame fr"
  "isProviderFrame (plainFrame k) = False"
  by (simp_all add: isProviderFrame_def advance_def plainFrame_def)

lemma fallbackPlain_simps [simp]:
  "fallbackPlain (Frame ty k i f None) = True"
  "fallbackPlain (Frame ty k i f (Some fb)) = (ftype fb = TNull \<and> fallbackFrame fb = None)"
  "fallbackPlain (advance fr) = fallbackPlain fr"
  "fallbackPlain (plainFrame k) = True"
  by (simp_all add: fallbackPlain_def advance_def plainFrame_def)

lemma scopeInv_index: "scopeInv base r w \<Longrightarrow> - 1 \<le> contextIndex r"
  unfolding scopeInv_def by linarith

lemma renderResolved_inv:
  assumes "renderResolved E n r w = Inr (s, r', w')"
  shows "threadID r' = threadID r \<and> exhausted r' = exhausted r \<and> released w' = released w
         \<and> held w' = held w \<and> settled w' = settled w \<and> makeStaticMarkup r' = makeStaticMarkup r
         \<and> isChildRenderer r' = isChildRenderer r
         \<and> (scopeInv base r w \<longrightarrow> scopeInv base r' w')"
proof (cases n)
  case (Provider c v kids)
  obtain r1 w1 where p: "pushProvider c v r w = (r1, w1)" by (cases "pushProvider c v r w")
  have r': "r' = pushFrame (Frame (TProvider c) kids 0 '''' None) r1" and w': "w' = w1"
    using assms Provider p by auto
  note f = pushProvider_fields[OF p]
  have "scopeInv base r' w'" if inv: "scopeInv base r w"
  proof -
    have cp: "clearProviders r1 w1 = clearProviders r w"
      by (rule clearProviders_push[OF scopeInv_index[OF inv] p])
    have "clearProviders r' w' = clearProviders r1 w1"
      by (simp add: r' w' clearProviders_def pushFrame_def)
    then show ?thesis using inv cp f by (simp add: scopeInv_def r' w' pushFrame_def)
  qed
  then show ?thesis using f by (simp add: r' w' pushFrame_def)
next
  case (Suspense fb kids)
  then show ?thesis using assms
    by (cases fb) (auto simp: pushFrame_def plainFrame_def scopeInv_def clearProviders_def Let_def)
next
  case (Element tag attrs inner kids)
  then show ?thesis using assms
    by (auto simp: renderDOM_def pushFrame_def scopeInv_def clearProviders_def Let_def
             split: if_splits option.splits)
qed (use assms in \<open>auto simp: pushFrame_def plainFrame_def scopeInv_def clearProviders_def\<close>)

lemma render_Inr_cases:
  assumes "render E child r w = Inr x"
  shows "(\<exists>t. child = Text t) \<or> (\<exists>n. resolve (settled w) child = Inr n \<and> renderResolved E n r w = Inr x)"
  using assms by (cases child) (auto simp: render_def split: sum.splits if_splits)

lemma render_inv:
  assumes "render E child r w = Inr (s, r', w')"
  shows "threadID r' = threadID r \<and> exhausted r' = exhausted r \<and> released w' = released w
         \<and> held w' = held w \<and> settled w' = settled w \<and> makeStaticMarkup r' = makeStaticMarkup r
         \<and> isChildRenderer r' = isChildRenderer r
         \<and> (scopeInv base r w \<longrightarrow> scopeInv base r' w')"
proof -
  from render_Inr_cases[OF assms] consider t where "child = Text t"
    | n where "renderResolved E n r w = Inr (s, r', w')" by blast
  then show ?thesis
  proof cases
    case 1
    then show ?thesis using assms
      by (auto simp: render_def scopeInv_def clearProviders_def split: if_splits)
  next
    case 2
    then show ?thesis by (rule renderResolved_inv)
  qed
qed

lemma readChild_inv:
  assumes st: "stack r = frame # rest" and inv: "scopeInv base r w"
    and res: "readChild E frame rest r w out = Inl (e, r', w') \<or> readChild E frame rest r w out = Inr (r', w', out', s')"
  shows "stepInv base r w r' w'"
proof -
  let ?r1 = "r\<lparr>stack := advance frame # rest\<rparr>"
  have inv1: "scopeInv base ?r1 w"
    using inv st by (auto simp: scopeInv_def clearProviders_def)
  have base1: "stepInv base r w ?r1 w" using inv1 by (simp add: stepInv_def)
  show ?thesis
  proof (cases "render E (children frame ! childIndex frame) ?r1 w")
    case (Inl t)
    then show ?thesis using res base1
      by (cases t) (auto simp: readChild_def Let_def split: if_splits)
  next
    case (Inr x)
    obtain s r2 w2 where x: "x = (s, r2, w2)" by (cases x)
    from render_inv[OF Inr[unfolded x], of base] inv1
    have "stepInv base r w r2 w2" by (simp add: stepInv_def)
    then show ?thesis using res Inr x by (auto simp: readChild_def Let_def)
  qed
qed

lemma readExit_inv:
  assumes st: "stack r = frame # rest" and inv: "scopeInv base r w"
    and res: "readExit frame rest r w out s = Inl (e, r', w') \<or> readExit frame rest r w out s = Inr (r', w', out', s')"
  shows "stepInv base r w r' w'"
proof -
  let ?r1 = "r\<lparr>previousWasTextNode := (if footer frame \<noteq> '''' then False else previousWasTextNode r),
                 stack := rest\<rparr>"
  show ?thesis
  proof (cases "ftype frame")
    case (TProvider c)
    have pf: "isProviderFrame frame" by (simp add: isProviderFrame_def TProvider)
    have ge: "0 \<le> contextIndex ?r1" using inv st pf by (simp add: scopeInv_def)
    have ok: "fst (clearProviders ?r1 w) = None" using inv by (simp add: scopeInv_def clearProviders_def)
    from clearProviders_pop[OF ge ok] obtain r2 w2 where
      p: "popProvider ?r1 w = Inr (r2, w2)" and cp: "clearProviders r2 w2 = clearProviders ?r1 w"
      and f: "contextIndex r2 = contextIndex ?r1 - 1" "threadID r2 = threadID ?r1" "stack r2 = stack ?r1"
        "exhausted r2 = exhausted ?r1" "held w2 = held w" "released w2 = released w" "settled w2 = settled w"
      by blast
    have "clearProviders ?r1 w = clearProviders r w" by (simp add: clearProviders_def)
    then have "stepInv base r w r2 w2"
      using inv st pf cp f by (simp add: stepInv_def scopeInv_def)
    then show ?thesis using res p TProvider by (auto simp: readExit_def Let_def)
  next
    case TSuspense
    have fp: "fallbackPlain frame" using inv st by (simp add: scopeInv_def)
    show ?thesis using res inv st TSuspense fp
      by (auto simp: readExit_def Let_def stepInv_def scopeInv_def clearProviders_def pushFrame_def
               isProviderFrame_def fallbackPlain_def
               split: if_splits option.splits prod.splits)
  qed (use res inv st in \<open>auto simp: readExit_def Let_def stepInv_def scopeInv_def clearProviders_def isProviderFrame_def\<close>)
qed

lemma scopeInv_exhausted:
  assumes "scopeInv base r w" and "stack r = []"
  shows "slots w = base"
proof -
  have "contextIndex r = - 1" using assms by (simp add: scopeInv_def)
  then have "clearProviders r w = (None, w)" by (rule clearProviders_empty)
  then show ?thesis using assms(1) by (simp add: scopeInv_def)
qed

lemma readLoop_inv:
  assumes "readLoop n E bytes r w out s = Some (res, r', w')"
    and "scopeInv base r w" and "\<not> exhausted r"
  shows "threadID r' = threadID r \<and> held w' = (if exhausted r' then removeAll (threadID r) (held w) else held w)
         \<and> settled w' = settled w
         \<and> (if exhausted r'
             then slots w' = base \<and> released w' = released w @ [threadID r] \<and> stack r' = []
             else scopeInv base r' w' \<and> released w' = released w)"
  using assms
proof (induction n arbitrary: r w out s)
  case 0
  then show ?case by simp
next
  case (Suc n)
  show ?case
  proof (cases "js_get out 0")
    case None
    then show ?thesis using Suc.prems by simp
  next
    case (Some o0)
    show ?thesis
    proof (cases "enat (length o0) < bytes")
      case False
      then show ?thesis using Suc.prems Some by simp
    next
      case True
      show ?thesis
      proof (cases "stack r")
        case Nil
        then show ?thesis using Suc.prems Some True scopeInv_exhausted[OF Suc.prems(2) Nil]
          by (auto simp: freeThreadID_def)
      next
        case (Cons frame rest)
        let ?step = "if s \<or> childIndex frame \<ge> length (children frame)
                        then readExit frame rest r w out s
                        else readChild E frame rest r w out"
        show ?thesis
        proof (cases ?step)
          case (Inl x)
          obtain e r1 w1 where x: "x = (e, r1, w1)" by (cases x)
          have "stepInv base r w r1 w1"
            using Inl x readExit_inv[OF Cons Suc.prems(2), of out s e r1 w1]
              readChild_inv[OF Cons Suc.prems(2), of E out e r1 w1]
            by (auto split: if_splits)
          moreover have "res = Inl e \<and> r' = r1 \<and> w' = w1"
            using Suc.prems(1) Some True Cons Inl x by simp
          ultimately show ?thesis using Suc.prems(3) by (simp add: stepInv_def)
        next
          case (Inr y)
          obtain r1 w1 out1 s1 where y: "y = (r1, w1, out1, s1)" by (cases y)
          have si: "stepInv base r w r1 w1"
            using Inr y readExit_inv[OF Cons Suc.prems(2), of out s _ r1 w1 out1 s1]
              readChild_inv[OF Cons Suc.prems(2), of E out _ r1 w1 out1 s1]
            by (auto split: if_splits)
          have rl: "readLoop n E bytes r1 w1 out1 s1 = Some (res, r', w')"
            using Suc.prems(1) Some True Cons Inr y by simp
          from Suc.IH[OF rl] si Suc.prems(3) show ?thesis by (simp add: stepInv_def)
        qed
      qed
    qed
  qed
qed

lemma read_sessionInv:
  assumes "read n E bytes r w = Some (res, r', w')" and "sessionInv r0 w0 r w"
  shows "sessionInv r0 w0 r' w'"
proof (cases "exhausted r")
  case True
  then show ?thesis using assms by (simp add: read_def)
next
  case False
  then obtain res0 where rl: "readLoop n E bytes r w [Some ''''] False = Some (res0, r', w')"
    using assms(1) by (auto simp: read_def split: option.splits sum.splits)
  have "scopeInv (slots w0) r w" using assms(2) False by (simp add: sessionInv_def)
  from readLoop_inv[OF rl this False] assms(2) False show ?thesis
    by (auto simp: sessionInv_def split: if_splits)
qed

lemma destroy_sessionInv:
  assumes "destroy r w = (e, r', w')" and "sessionInv r0 w0 r w"
  shows "sessionInv r0 w0 r' w' \<and> exhausted r' \<and> e = None"
proof (cases "exhausted r")
  case True
  then show ?thesis using assms by (simp add: destroy_def)
next
  case False
  let ?r1 = "r\<lparr>exhausted := True\<rparr>"
  have inv: "scopeInv (slots w0) r w" using assms(2) False by (simp add: sessionInv_def)
  have cp: "clearProviders ?r1 w = clearProviders r w" by (simp add: clearProviders_def)
  obtain w1 where c: "clearProviders r w = (None, w1)" and s: "slots w1 = slots w0"
    using inv by (cases "clearProviders r w") (auto simp: scopeInv_def)
  have rel: "released w1 = released w"
    using c clearFrom_fields(2)[of "nat (contextIndex r + 1)" "contextStack r" "contextValueStack r" "threadID r" w]
    by (simp add: clearProviders_def)
  show ?thesis using assms False cp c s rel
    by (auto simp: destroy_def Let_def sessionInv_def freeThreadID_def)
qed

lemma calls_sessionInv:
  assumes "calls n E cs r w = Some (r', w')" and "sessionInv r0 w0 r w"
  shows "sessionInv r0 w0 r' w' \<and> (Destroy \<in> set cs \<longrightarrow> exhausted r') \<and> (exhausted r \<longrightarrow> exhausted r')"
  using assms
proof (induction cs arbitrary: r w)
  case Nil
  then show ?case by simp
next
  case (Cons c cs)
  show ?case
  proof (cases c)
    case (Read bytes)
    then obtain res r1 w1 where rd: "read n E bytes r w = Some (res, r1, w1)"
      and cl: "calls n E cs r1 w1 = Some (r', w')"
      using Cons.prems(1) by (auto split: option.splits)
    have ex: "exhausted r \<longrightarrow> exhausted r1" using rd by (auto simp: read_def)
    from Cons.IH[OF cl read_sessionInv[OF rd Cons.prems(2)]] ex Read show ?thesis by auto
  next
    case Destroy
    obtain e r1 w1 where d: "destroy r w = (e, r1, w1)" by (cases "destroy r w")
    have cl: "calls n E cs r1 w1 = Some (r', w')" using Cons.prems(1) Destroy d by simp
    from destroy_sessionInv[OF d Cons.prems(2)] Cons.IH[OF cl] Destroy show ?thesis by auto
  qed
qed

lemma newRenderer_sessionInv:
  assumes "newRenderer kids static w0 = (r0, w1)"
  shows "sessionInv r0 w1 r0 w1" and "released w1 = released w0" and "slots w1 = slots w0"
  using assms
  by (auto simp: newRenderer_def allocThreadID_def Let_def sessionInv_def scopeInv_def
        clearProviders_def isProviderFrame_def fallbackPlain_def split: prod.splits)

lemma destroy_twice: "destroy r w = (e, r', w') \<Longrightarrow> destroy r' w' = (None, r', w')"
  by (auto simp: destroy_def Let_def split: if_splits prod.splits option.splits)



subsection \<open>Scope restoration and the release of the session id\<close>

text \<open>
  The provider scopes of a session of the synchronous renderer, started by the
  constructor. Every sequence of provider events that never leaves a scope it has not
  entered runs without an error and keeps the context stacks such that draining the
  entries still open (\<^verbatim>\<open>clearProviders\<close>, as \<^verbatim>\<open>destroy\<close> does in the middle of a
  traversal) gives back exactly the shared state of the start of the session; when all
  scopes have been left, the shared state is that of the start. The exit that matches an
  enter, after any well-nested events in between, writes back the value that the enter
  recorded: the shared state after the exit is the one before the enter. And of the
  traversal itself: whatever \<^verbatim>\<open>read\<close> and \<^verbatim>\<open>destroy\<close> calls the caller issues, once the
  session is exhausted or one of the calls was a \<^verbatim>\<open>destroy\<close>, the session is exhausted
  and every slot holds its value of before the session.
\<close>

lemma provider_scopes_restored:
  assumes fresh: "newRenderer kids static w0 = (r0, w1)"
  shows "(nesting 0 es = Some d \<longrightarrow>
           (\<exists>r w. runScope es r0 w1 = Inr (r, w) \<and> contextIndex r = int d - 1
                  \<and> clearProviders r w = (None, w1) \<and> (d = 0 \<longrightarrow> w = w1)))
       \<and> (nesting 0 pre = Some d \<and> nesting 0 xs = Some 0 \<longrightarrow>
           (\<exists>r w r'. runScope pre r0 w1 = Inr (r, w)
                  \<and> runScope (pre @ Enter c v # xs @ [Exit]) r0 w1 = Inr (r', w)
                  \<and> contextIndex r' = contextIndex r))
       \<and> (calls n E cs r0 w1 = Some (r, w) \<and> (exhausted r \<or> Destroy \<in> set cs) \<longrightarrow>
             exhausted r \<and> slots w = slots w0)"
proof -
  have ci0: "contextIndex r0 = - 1" using newRenderer_fields[OF fresh] by simp
  note f = newRenderer_sessionInv[OF fresh]
  have "exhausted r \<and> slots w = slots w0"
    if c: "calls n E cs r0 w1 = Some (r, w)" and e: "exhausted r \<or> Destroy \<in> set cs"
    using calls_sessionInv[OF c f(1)] e f(3) by (auto simp: sessionInv_def)
  then show ?thesis
    using runScope_fresh[OF ci0, of es d w1] runScope_matching[OF ci0, of pre d xs w1 c v]
    by blast
qed

lemma provider_scopes_restored_witness:
  "nesting 0 [Enter 0 (Some 1), Enter 1 (Some 2)] = Some 2
   \<and> (\<exists>r w. runScope [Enter 0 (Some 1), Enter 1 (Some 2)]
               (fst (newRenderer Null False (sampleWorld []))) (snd (newRenderer Null False (sampleWorld [])))
              = Inr (r, w)
            \<and> contextIndex r = 1
            \<and> clearProviders r w = (None, snd (newRenderer Null False (sampleWorld []))))
   \<and> nesting 0 [Enter 0 (Some 1)] = Some 1 \<and> nesting 0 [Enter 0 (Some 7), Exit] = Some 0
   \<and> (\<exists>r w r'. runScope [Enter 0 (Some 1)]
               (fst (newRenderer Null False (sampleWorld []))) (snd (newRenderer Null False (sampleWorld [])))
              = Inr (r, w)
            \<and> runScope ([Enter 0 (Some 1)] @ Enter 1 (Some 2) # [Enter 0 (Some 7), Exit] @ [Exit])
               (fst (newRenderer Null False (sampleWorld []))) (snd (newRenderer Null False (sampleWorld [])))
              = Inr (r', w)
            \<and> contextIndex r' = contextIndex r)
   \<and> (\<exists>r w. calls 10 sampleEncoder [Read \<infinity>]
               (fst (newRenderer (Provider 0 (Some 1) [Text ''c'']) False (sampleWorld [])))
               (snd (newRenderer (Provider 0 (Some 1) [Text ''c'']) False (sampleWorld [])))
              = Some (r, w)
            \<and> exhausted r \<and> slots w = slots (sampleWorld []))
   \<and> (\<exists>r w. calls 10 sampleEncoder [Read 1]
               (fst (newRenderer (Provider 0 (Some 1) [Text ''c'']) False (sampleWorld [])))
               (snd (newRenderer (Provider 0 (Some 1) [Text ''c'']) False (sampleWorld [])))
              = Some (r, w)
            \<and> \<not> exhausted r \<and> slots w 0 0 = Some 1)
   \<and> (\<exists>r w. calls 10 sampleEncoder [Read 1, Destroy]
               (fst (newRenderer (Provider 0 (Some 1) [Text ''c'']) False (sampleWorld [])))
               (snd (newRenderer (Provider 0 (Some 1) [Text ''c'']) False (sampleWorld [])))
              = Some (r, w)
            \<and> exhausted r \<and> slots w = slots (sampleWorld []))"
proof -
  have a: "nesting 0 [Enter 0 (Some 1), Enter 1 (Some 2)] = Some 2" by simp
  have b: "nesting 0 [Enter 0 (Some 1)] = Some 1" "nesting 0 [Enter 0 (Some 7), Exit] = Some 0" by simp_all
  note t = provider_scopes_restored[OF surjective_pairing,
      where kids = Null and static = False and ?w0.0 = "sampleWorld []"]
  from t[where es = "[Enter 0 (Some 1), Enter 1 (Some 2)]" and d = 2] a
  have 1: "\<exists>r w. runScope [Enter 0 (Some 1), Enter 1 (Some 2)]
               (fst (newRenderer Null False (sampleWorld []))) (snd (newRenderer Null False (sampleWorld [])))
              = Inr (r, w)
            \<and> contextIndex r = 1
            \<and> clearProviders r w = (None, snd (newRenderer Null False (sampleWorld [])))"
    by fastforce
  from t[where pre = "[Enter 0 (Some 1)]" and xs = "[Enter 0 (Some 7), Exit]" and d = 1 and c = 1 and v = "Some 2"] b
  have 2: "\<exists>r w r'. runScope [Enter 0 (Some 1)]
               (fst (newRenderer Null False (sampleWorld []))) (snd (newRenderer Null False (sampleWorld [])))
              = Inr (r, w)
            \<and> runScope ([Enter 0 (Some 1)] @ Enter 1 (Some 2) # [Enter 0 (Some 7), Exit] @ [Exit])
               (fst (newRenderer Null False (sampleWorld []))) (snd (newRenderer Null False (sampleWorld [])))
              = Inr (r', w)
            \<and> contextIndex r' = contextIndex r"
    by blast
  let ?t = "Provider 0 (Some 1) [Text ''c'']"
  let ?r0 = "fst (newRenderer ?t False (sampleWorld []))"
  let ?w1 = "snd (newRenderer ?t False (sampleWorld []))"
  have "case calls 10 sampleEncoder [Read \<infinity>] ?r0 ?w1 of
          None \<Rightarrow> False | Some (r, w) \<Rightarrow> exhausted r"
    by code_simp
  then obtain r w where c: "calls 10 sampleEncoder [Read \<infinity>] ?r0 ?w1 = Some (r, w)" and e: "exhausted r"
    by (auto split: option.splits)
  from provider_scopes_restored[OF surjective_pairing, where kids = ?t and static = False
      and ?w0.0 = "sampleWorld []" and n = 10 and E = sampleEncoder and cs = "[Read \<infinity>]" and r = r and w = w]
    c e
  have 3: "\<exists>r w. calls 10 sampleEncoder [Read \<infinity>] ?r0 ?w1 = Some (r, w)
            \<and> exhausted r \<and> slots w = slots (sampleWorld [])"
    by blast
  have "case calls 10 sampleEncoder [Read 1] ?r0 ?w1 of
          None \<Rightarrow> False | Some (r, w) \<Rightarrow> \<not> exhausted r \<and> slots w 0 0 = Some 1"
    by code_simp
  then have 4: "\<exists>r w. calls 10 sampleEncoder [Read 1] ?r0 ?w1 = Some (r, w)
            \<and> \<not> exhausted r \<and> slots w 0 0 = Some 1"
    by (auto split: option.splits)
  have "case calls 10 sampleEncoder [Read 1, Destroy] ?r0 ?w1 of
          None \<Rightarrow> False | Some (r, w) \<Rightarrow> True"
    by code_simp
  then obtain r' w' where c': "calls 10 sampleEncoder [Read 1, Destroy] ?r0 ?w1 = Some (r', w')"
    by (auto split: option.splits)
  from provider_scopes_restored[OF surjective_pairing, where kids = ?t and static = False
      and ?w0.0 = "sampleWorld []" and n = 10 and E = sampleEncoder and cs = "[Read 1, Destroy]" and r = r' and w = w']
    c'
  have 5: "\<exists>r w. calls 10 sampleEncoder [Read 1, Destroy] ?r0 ?w1 = Some (r, w)
            \<and> exhausted r \<and> slots w = slots (sampleWorld [])"
    by auto
  from a b 1 2 3 4 5 show ?thesis by blast
qed


text \<open>
  Claim C8. Take a session of the synchronous renderer, started by the constructor, and
  any sequence of \<^verbatim>\<open>read\<close> and \<^verbatim>\<open>destroy\<close> calls on it (a \<^verbatim>\<open>read\<close> may have thrown).
  The log of releases has grown by the id of the session exactly once if the session is
  exhausted and not at all otherwise: the release done by the \<^verbatim>\<open>read\<close> that found the
  frame stack empty and the one done by \<^verbatim>\<open>destroy\<close> never add up. After a \<^verbatim>\<open>destroy\<close>
  the session is exhausted; an exhausted session has every slot at its value of before
  the session, and \<^verbatim>\<open>destroy\<close> changes nothing on it. In any state whatsoever, a
  second \<^verbatim>\<open>destroy\<close> right after a first returns without a change.
\<close>

theorem destroy_once:
  assumes fresh: "newRenderer kids static w0 = (r0, w1)"
    and run: "calls n E cs r0 w1 = Some (r, w)"
  shows "released w = released w0 @ (if exhausted r then [threadID r0] else [])
       \<and> (Destroy \<in> set cs \<longrightarrow> exhausted r)
       \<and> (exhausted r \<longrightarrow> slots w = slots w0 \<and> destroy r w = (None, r, w))
       \<and> (\<forall>r2 w2 e r' w'. destroy r2 w2 = (e, r', w') \<longrightarrow> destroy r' w' = (None, r', w'))"
proof -
  note f = newRenderer_sessionInv[OF fresh]
  from calls_sessionInv[OF run f(1)] have
    s: "sessionInv r0 w1 r w" and d: "Destroy \<in> set cs \<longrightarrow> exhausted r" by simp_all
  have "released w = released w0 @ (if exhausted r then [threadID r0] else [])"
    using s f(2) by (simp add: sessionInv_def split: if_splits)
  moreover have "exhausted r \<longrightarrow> slots w = slots w0 \<and> destroy r w = (None, r, w)"
    using s f(3) by (simp add: sessionInv_def destroy_def)
  ultimately show ?thesis using d destroy_twice by blast
qed

theorem destroy_once_witness:
  "\<exists>r w. calls 10 sampleEncoder [Read 1, Destroy, Read \<infinity>, Destroy]
            (fst (newRenderer (Fragment [Text ''ab'', Provider 0 (Some 1) [Text ''c'']]) False (sampleWorld [])))
            (snd (newRenderer (Fragment [Text ''ab'', Provider 0 (Some 1) [Text ''c'']]) False (sampleWorld [])))
          = Some (r, w)
        \<and> released w = [0] \<and> exhausted r \<and> slots w = slots (sampleWorld [])
        \<and> destroy r w = (None, r, w)"
proof -
  let ?t = "Fragment [Text ''ab'', Provider 0 (Some 1) [Text ''c'']]"
  let ?r0 = "fst (newRenderer ?t False (sampleWorld []))"
  let ?w1 = "snd (newRenderer ?t False (sampleWorld []))"
  have "case calls 10 sampleEncoder [Read 1, Destroy, Read \<infinity>, Destroy] ?r0 ?w1 of
          None \<Rightarrow> False | Some (r, w) \<Rightarrow> True"
    by code_simp
  then obtain r w where c: "calls 10 sampleEncoder [Read 1, Destroy, Read \<infinity>, Destroy] ?r0 ?w1 = Some (r, w)"
    by (auto split: option.splits)
  have t0: "threadID ?r0 = 0" "released (sampleWorld []) = []" by code_simp+
  from destroy_once[OF surjective_pairing c] t0
  show ?thesis using c by (intro exI[of _ r] exI[of _ w]) auto
qed

subsection \<open>Suspension in the synchronous reader\<close>

lemma render_nontext:
  "(\<And>t. child \<noteq> Text t) \<Longrightarrow>
   render E child r w = (case resolve (settled w) child of Inl t \<Rightarrow> Inl t | Inr n \<Rightarrow> renderResolved E n r w)"
  by (cases child) (auto simp: render_def)

lemma render_text_Inr: "\<exists>x. render E (Text t) r w = Inr x"
  by (simp add: render_def)

lemma render_never_unhandled: "render E child r w \<noteq> Inl (Failure UnhandledSuspension)"
proof -
  have a: "resolve S n \<noteq> Inl (Failure UnhandledSuspension)" for S n
    by (induction S n rule: resolve.induct) auto
  have b: "renderResolved E n r w \<noteq> Inl (Failure UnhandledSuspension)" for n
    by (cases "(E, n, r, w)" rule: renderResolved.cases)
       (auto simp: renderDOM_def Let_def split: prod.splits sum.splits if_splits)
  show ?thesis
  proof (cases "\<exists>t. child = Text t")
    case True
    then obtain t where "child = Text t" by blast
    then show ?thesis using render_text_Inr[of E t r w] by auto
  next
    case False
    then show ?thesis using a b by (auto simp: render_nontext split: sum.splits)
  qed
qed

lemma readExit_never_unhandled: "readExit frame rest r w out s \<noteq> Inl (UnhandledSuspension, r', w')"
  by (auto simp: readExit_def Let_def popProvider_def split: ftype.splits sum.splits prod.splits option.splits if_splits)

lemma readChild_unhandled_iff:
  "readChild E frame rest r w out = Inl (UnhandledSuspension, r', w') \<longleftrightarrow>
     (\<exists>p. render E (children frame ! childIndex frame) (r\<lparr>stack := advance frame # rest\<rparr>) w = Inl (Thenable p))
     \<and> suspenseDepth r = 0 \<and> r' = r\<lparr>stack := advance frame # rest\<rparr> \<and> w' = w"
  using render_never_unhandled[of E "children frame ! childIndex frame" "r\<lparr>stack := advance frame # rest\<rparr>" w]
  by (auto simp: readChild_def Let_def split: sum.splits thrown.splits prod.splits if_splits)

text \<open>
  Claim C5, as amended. When the loop of \<^verbatim>\<open>read\<close> is about to render a child whose
  resolution throws a thenable (the budget is not yet met, the top frame has a next
  child, nothing is suspended) and the boundary depth is zero, \<^verbatim>\<open>read\<close> throws the
  no-fallback error and returns no output. The session is not aborted by this: the
  renderer and the shared state that \<^verbatim>\<open>read\<close> leaves are those of the call but for the
  advanced child index, so the renderer is not exhausted, its id is still held and the
  provider overrides it has open stay in place until the caller calls \<^verbatim>\<open>destroy\<close>. With
  a positive boundary depth the same step raises nothing and the loop goes on in the
  suspended mode. No step of the loop raises this error at a positive depth. Last part:
  in a session started by the constructor, whatever calls came before, a \<^verbatim>\<open>destroy\<close>
  after a \<^verbatim>\<open>read\<close> that threw this error ends the session: the renderer is exhausted,
  every slot holds its value of before the session and the id is released once.
\<close>

theorem unhandled_suspension:
  assumes "js_get out 0 = Some o0" and "enat (length o0) < bytes"
    and "stack r = frame # rest" and "childIndex frame < length (children frame)"
    and "render E (children frame ! childIndex frame) (r\<lparr>stack := advance frame # rest\<rparr>) w = Inl (Thenable p)"
  shows "(suspenseDepth r = 0 \<longrightarrow>
            readLoop (Suc n) E bytes r w out False
              = Some (Inl UnhandledSuspension, r\<lparr>stack := advance frame # rest\<rparr>, w))
       \<and> (0 < suspenseDepth r \<longrightarrow>
            readLoop (Suc n) E bytes r w out False
              = readLoop n E bytes (r\<lparr>stack := advance frame # rest\<rparr>) w
                  (pushOut out (suspenseDepth r) '''') True)
       \<and> (\<forall>f fs r2 w2 out2 s r' w'.
             0 < suspenseDepth r2 \<longrightarrow>
               readExit f fs r2 w2 out2 s \<noteq> Inl (UnhandledSuspension, r', w')
               \<and> readChild E f fs r2 w2 out2 \<noteq> Inl (UnhandledSuspension, r', w'))
       \<and> (suspenseDepth r = 0 \<and> \<not> exhausted r \<longrightarrow>
            read (Suc n) E bytes r w
              = Some (Inl UnhandledSuspension, r\<lparr>stack := advance frame # rest\<rparr>, w))
       \<and> (newRenderer kids static w0 = (r0, w1) \<and> calls m E cs r0 w1 = Some (ra, wa)
            \<and> read k E bytes2 ra wa = Some (Inl UnhandledSuspension, rb, wb)
            \<and> destroy rb wb = (e, rc, wc)
          \<longrightarrow> e = None \<and> exhausted rc \<and> slots wc = slots w0
              \<and> released wc = released w0 @ [threadID r0])"
proof -
  have fin: "e = None \<and> exhausted rc \<and> slots wc = slots w0 \<and> released wc = released w0 @ [threadID r0]"
    if fresh: "newRenderer kids static w0 = (r0, w1)" and run: "calls m E cs r0 w1 = Some (ra, wa)"
      and rd: "read k E bytes2 ra wa = Some (Inl UnhandledSuspension, rb, wb)"
      and ds: "destroy rb wb = (e, rc, wc)"
  proof -
    note f = newRenderer_sessionInv[OF fresh]
    from calls_sessionInv[OF run f(1)] have "sessionInv r0 w1 ra wa" by simp
    from read_sessionInv[OF rd this] have "sessionInv r0 w1 rb wb" .
    from destroy_sessionInv[OF ds this] f(2,3) show ?thesis
      by (simp add: sessionInv_def)
  qed
  have b: "0 < bytes" using assms(2) by (cases bytes) (auto simp: zero_enat_def)
  have "readLoop (Suc n) E bytes r w [Some ''''] False
          = Some (Inl UnhandledSuspension, r\<lparr>stack := advance frame # rest\<rparr>, w)"
    if "suspenseDepth r = 0"
    using that assms(3-5) b by (auto simp: readLoop.simps readChild_def Let_def js_get_def zero_enat_def[symmetric])
  then have "read (Suc n) E bytes r w
              = Some (Inl UnhandledSuspension, r\<lparr>stack := advance frame # rest\<rparr>, w)"
    if "suspenseDepth r = 0" "\<not> exhausted r"
    using that by (simp add: read_def del: readLoop.simps)
  moreover have "(suspenseDepth r = 0 \<longrightarrow>
            readLoop (Suc n) E bytes r w out False
              = Some (Inl UnhandledSuspension, r\<lparr>stack := advance frame # rest\<rparr>, w))
       \<and> (0 < suspenseDepth r \<longrightarrow>
            readLoop (Suc n) E bytes r w out False
              = readLoop n E bytes (r\<lparr>stack := advance frame # rest\<rparr>) w
                  (pushOut out (suspenseDepth r) '''') True)"
    using assms by (auto simp: readLoop.simps readChild_def Let_def)
  ultimately show ?thesis
    using readExit_never_unhandled readChild_unhandled_iff fin by auto
qed

theorem unhandled_suspension_witness:
  "suspenseDepth (fst (newRenderer (Fragment [Suspending 0 (Text ''x''), Text ''y'']) False (sampleWorld []))) = 0
   \<and> readLoop (Suc 0) sampleEncoder \<infinity>
        (fst (newRenderer (Fragment [Suspending 0 (Text ''x''), Text ''y'']) False (sampleWorld [])))
        (snd (newRenderer (Fragment [Suspending 0 (Text ''x''), Text ''y'']) False (sampleWorld [])))
        [Some ''''] False
      = Some (Inl UnhandledSuspension,
              (fst (newRenderer (Fragment [Suspending 0 (Text ''x''), Text ''y'']) False (sampleWorld [])))
                \<lparr>stack := [Frame TNull [Suspending 0 (Text ''x''), Text ''y''] 1 '''' None]\<rparr>,
              snd (newRenderer (Fragment [Suspending 0 (Text ''x''), Text ''y'']) False (sampleWorld [])))
   \<and> read (Suc 0) sampleEncoder \<infinity>
        (fst (newRenderer (Fragment [Suspending 0 (Text ''x''), Text ''y'']) False (sampleWorld [])))
        (snd (newRenderer (Fragment [Suspending 0 (Text ''x''), Text ''y'']) False (sampleWorld [])))
      = Some (Inl UnhandledSuspension,
              (fst (newRenderer (Fragment [Suspending 0 (Text ''x''), Text ''y'']) False (sampleWorld [])))
                \<lparr>stack := [Frame TNull [Suspending 0 (Text ''x''), Text ''y''] 1 '''' None]\<rparr>,
              snd (newRenderer (Fragment [Suspending 0 (Text ''x''), Text ''y'']) False (sampleWorld [])))
   \<and> 0 < suspenseDepth
        ((fst (newRenderer Null False (sampleWorld [])))
           \<lparr>stack := [Frame TSuspense [Suspending 0 (Text ''x'')] 0 ''<!--/$-->''
                         (Some (Frame TNull [Text ''f''] 0 ''<!--/$-->'' None)),
                      Frame TNull [] 1 '''' None],
            suspenseDepth := 1\<rparr>)
   \<and> map_option fst
        (readLoop (Suc 5) sampleEncoder \<infinity>
          ((fst (newRenderer Null False (sampleWorld [])))
             \<lparr>stack := [Frame TSuspense [Suspending 0 (Text ''x'')] 0 ''<!--/$-->''
                           (Some (Frame TNull [Text ''f''] 0 ''<!--/$-->'' None)),
                        Frame TNull [] 1 '''' None],
              suspenseDepth := 1\<rparr>)
          (snd (newRenderer Null False (sampleWorld [])))
          [Some ''<!--$-->''] False)
      = Some (Inr ''<!--$--><!--$!-->f<!--/$-->'')
   \<and> (\<exists>rb wb e rc wc.
         read 5 sampleEncoder \<infinity>
           (fst (newRenderer (Provider 0 (Some 7) [Suspending 0 (Text ''x'')]) False (sampleWorld [])))
           (snd (newRenderer (Provider 0 (Some 7) [Suspending 0 (Text ''x'')]) False (sampleWorld [])))
           = Some (Inl UnhandledSuspension, rb, wb)
         \<and> slots wb 0 0 = Some 7 \<and> released wb = []
         \<and> destroy rb wb = (e, rc, wc)
         \<and> e = None \<and> exhausted rc \<and> slots wc = slots (sampleWorld []) \<and> released wc = [0])"
proof -
  let ?kids = "[Suspending 0 (Text ''x''), Text ''y'']"
  let ?r = "fst (newRenderer (Fragment ?kids) False (sampleWorld []))"
  let ?w = "snd (newRenderer (Fragment ?kids) False (sampleWorld []))"
  let ?frame = "Frame TNull ?kids 0 '''' None"
  have f: "stack ?r = [?frame]" "suspenseDepth ?r = 0" "\<not> exhausted ?r" "settled ?w = []"
    by (simp_all add: newRenderer_def allocThreadID_def Let_def sampleWorld_def split: prod.splits)
  have p: "render sampleEncoder (children ?frame ! childIndex ?frame) (?r\<lparr>stack := advance ?frame # []\<rparr>) ?w
           = Inl (Thenable 0)"
    by (simp add: render_def f)
  note t1 = unhandled_suspension[where out = "[Some '''']" and ?o0.0 = "''''" and bytes = \<infinity> and r = ?r
      and frame = ?frame and rest = "[]" and E = sampleEncoder and w = ?w and p = 0 and n = 0, OF _ _ f(1) _ p]
  have a: "readLoop (Suc 0) sampleEncoder \<infinity> ?r ?w [Some ''''] False
        = Some (Inl UnhandledSuspension, ?r\<lparr>stack := advance ?frame # []\<rparr>, ?w)"
    using t1 f(2) by (simp add: js_get_def del: readLoop.simps)
  have b: "read (Suc 0) sampleEncoder \<infinity> ?r ?w
        = Some (Inl UnhandledSuspension, ?r\<lparr>stack := advance ?frame # []\<rparr>, ?w)"
    using t1 f(2,3) by (simp add: js_get_def del: readLoop.simps)
  let ?s = "fst (newRenderer Null False (sampleWorld []))"
  let ?v = "snd (newRenderer Null False (sampleWorld []))"
  let ?sf = "Frame TSuspense [Suspending 0 (Text ''x'')] 0 ''<!--/$-->''
                         (Some (Frame TNull [Text ''f''] 0 ''<!--/$-->'' None))"
  let ?s1 = "?s\<lparr>stack := [?sf, Frame TNull [] 1 '''' None], suspenseDepth := 1\<rparr>"
  have g: "stack ?s1 = ?sf # [Frame TNull [] 1 '''' None]" "suspenseDepth ?s1 = 1" "settled ?v = []"
    by (simp_all add: newRenderer_def allocThreadID_def Let_def sampleWorld_def split: prod.splits)
  have q: "render sampleEncoder (children ?sf ! childIndex ?sf) (?s1\<lparr>stack := advance ?sf # [Frame TNull [] 1 '''' None]\<rparr>) ?v
           = Inl (Thenable 0)"
    by (simp add: render_def g)
  note t2 = unhandled_suspension[where out = "[Some ''<!--$-->'']" and ?o0.0 = "''<!--$-->''" and bytes = \<infinity> and r = ?s1
      and frame = ?sf and rest = "[Frame TNull [] 1 '''' None]" and E = sampleEncoder and w = ?v and p = 0 and n = 5, OF _ _ g(1) _ q]
  have c: "readLoop (Suc 5) sampleEncoder \<infinity> ?s1 ?v [Some ''<!--$-->''] False
         = readLoop 5 sampleEncoder \<infinity> (?s1\<lparr>stack := advance ?sf # [Frame TNull [] 1 '''' None]\<rparr>) ?v
                  (pushOut [Some ''<!--$-->''] (suspenseDepth ?s1) '''') True"
    using t2 g(2) by (simp add: js_get_def del: readLoop.simps)
  have d: "map_option fst (readLoop 5 sampleEncoder \<infinity> (?s1\<lparr>stack := advance ?sf # [Frame TNull [] 1 '''' None]\<rparr>) ?v
                  (pushOut [Some ''<!--$-->''] (suspenseDepth ?s1) '''') True)
           = Some (Inr ''<!--$--><!--$!-->f<!--/$-->'')"
    by code_simp
  let ?pt = "Provider 0 (Some 7) [Suspending 0 (Text ''x'')]"
  let ?p0 = "fst (newRenderer ?pt False (sampleWorld []))"
  let ?p1 = "snd (newRenderer ?pt False (sampleWorld []))"
  have "case read 5 sampleEncoder \<infinity> ?p0 ?p1 of
          Some (Inl UnhandledSuspension, rb, wb) \<Rightarrow> slots wb 0 0 = Some 7 \<and> released wb = []
        | _ \<Rightarrow> False"
    by code_simp
  then obtain rb wb where rd: "read 5 sampleEncoder \<infinity> ?p0 ?p1 = Some (Inl UnhandledSuspension, rb, wb)"
    and sl: "slots wb 0 0 = Some 7" "released wb = []"
    by (auto split: option.splits prod.splits sum.splits error.splits)
  obtain e rc wc where ds: "destroy rb wb = (e, rc, wc)" by (cases "destroy rb wb")
  have id0: "threadID ?p0 = 0" "released (sampleWorld []) = []"
    by (simp_all add: newRenderer_def allocThreadID_def Let_def sampleWorld_def split: prod.splits)
  have cl: "calls 0 sampleEncoder [] ?p0 ?p1 = Some (?p0, ?p1)" by simp
  from unhandled_suspension[where kids = ?pt and static = False and ?w0.0 = "sampleWorld []"
      and ?r0.0 = ?p0 and ?w1.0 = ?p1 and m = 0 and E = sampleEncoder and cs = "[]" and ra = ?p0 and wa = ?p1
      and k = 5 and ?bytes2.0 = \<infinity> and rb = rb and wb = wb and e = e and rc = rc and wc = wc
      and out = "[Some '''']" and ?o0.0 = "''''" and bytes = \<infinity> and r = ?r
      and frame = ?frame and rest = "[]" and w = ?w and p = 0 and n = 0, OF _ _ f(1) _ p]
    rd ds cl id0
  have fin: "e = None \<and> exhausted rc \<and> slots wc = slots (sampleWorld []) \<and> released wc = [0]"
    by (simp add: js_get_def del: readLoop.simps)
  have 5: "\<exists>rb wb e rc wc.
         read 5 sampleEncoder \<infinity> ?p0 ?p1 = Some (Inl UnhandledSuspension, rb, wb)
         \<and> slots wb 0 0 = Some 7 \<and> released wb = []
         \<and> destroy rb wb = (e, rc, wc)
         \<and> e = None \<and> exhausted rc \<and> slots wc = slots (sampleWorld []) \<and> released wc = [0]"
    using rd sl ds fin by blast
  show ?thesis
    using a b d f(2) g(2) 5 unfolding c[symmetric] by (simp add: advance_def del: readLoop.simps)
qed

text \<open>
  The claim as the specification words it says that the session is aborted. It is not:
  after the error the renderer is not exhausted and has released nothing, a second
  \<^verbatim>\<open>read\<close> goes on with the next sibling and only then ends the session; and a provider
  that was open at the throw leaves its override in the shared slot.
\<close>

theorem unhandled_suspension_counterexample:
  "(case newRenderer (Fragment [Suspending 0 (Text ''x''), Text ''y'']) False (sampleWorld []) of
      (r0, w0) \<Rightarrow>
        (case read 5 sampleEncoder \<infinity> r0 w0 of
           Some (Inl UnhandledSuspension, r1, w1) \<Rightarrow>
             \<not> exhausted r1 \<and> held w1 = [threadID r1] \<and> released w1 = []
             \<and> (case read 5 sampleEncoder \<infinity> r1 w1 of
                  Some (Inr (Some s), r2, w2) \<Rightarrow> s = ''y'' \<and> exhausted r2 \<and> released w2 = [threadID r1]
                | _ \<Rightarrow> False)
         | _ \<Rightarrow> False))
   \<and> (case newRenderer (Provider 0 (Some 7) [Suspending 0 (Text ''x'')]) False (sampleWorld []) of
      (r0, w0) \<Rightarrow>
        (case read 5 sampleEncoder \<infinity> r0 w0 of
           Some (Inl UnhandledSuspension, r1, w1) \<Rightarrow>
             \<not> exhausted r1 \<and> slots w0 0 (threadID r0) = None \<and> slots w1 0 (threadID r1) = Some 7
             \<and> held w1 = [threadID r1] \<and> released w1 = []
         | _ \<Rightarrow> False))"
  by code_simp

subsection \<open>The output buffers of \<^verbatim>\<open>read\<close>\<close>

lemma js_get_map_Some: "js_get (map Some bufs) (int k) = (if k < length bufs then Some (bufs ! k) else None)"
  by (simp add: js_get_def)

lemma js_get_map_Some0: "bufs \<noteq> [] \<Longrightarrow> js_get (map Some bufs) 0 = Some (bufs ! 0)"
  by (simp add: js_get_def)

lemma js_append_map_Some:
  "d < length bufs \<Longrightarrow> js_append (map Some bufs) d s = map Some (bufs[d := bufs ! d @ s])"
  by (simp add: js_append_def js_set_def js_get_def js_str_def map_update)

lemma pushOut_map_Some:
  "d < length bufs \<Longrightarrow> pushOut (map Some bufs) d s = map Some (bufs[d := bufs ! d @ s])"
  by (simp add: pushOut_def js_append_map_Some)

lemma pushOut_map_Some_new:
  "pushOut (map Some bufs) (length bufs) s = map Some (bufs @ [s])"
proof -
  have "map Some bufs @ [Some ''''] = map Some (bufs @ [''''])" by simp
  then show ?thesis
    unfolding pushOut_def using js_append_map_Some[of "length bufs" "bufs @ ['''']" s]
    by (simp del: map_append)
qed

lemma js_pop_map_Some:
  "bufs \<noteq> [] \<Longrightarrow> js_pop (map Some bufs) = (Some (last bufs), map Some (butlast bufs))"
  by (simp add: js_pop_def last_map map_butlast)

lemma readLoop_child:
  assumes "bufs \<noteq> []" and "enat (length (bufs ! 0)) < bytes" and "stack r = frame # rest"
    and "childIndex frame < length (children frame)"
    and "readChild E frame rest r w (map Some bufs) = Inr (r', w', out', s')"
  shows "readLoop (Suc n) E bytes r w (map Some bufs) False = readLoop n E bytes r' w' out' s'"
  using assms by (simp add: js_get_map_Some0)

lemma readLoop_exit:
  assumes "bufs \<noteq> []" and "enat (length (bufs ! 0)) < bytes" and "stack r = frame # rest"
    and "s \<or> length (children frame) \<le> childIndex frame"
    and "readExit frame rest r w (map Some bufs) s = Inr (r', w', out', s')"
  shows "readLoop (Suc n) E bytes r w (map Some bufs) s = readLoop n E bytes r' w' out' s'"
  using assms by (simp add: js_get_map_Some0)

lemma readLoop_exhaust:
  assumes "bufs \<noteq> []" and "enat (length (bufs ! 0)) < bytes" and "stack r = []"
  shows "readLoop (Suc n) E bytes r w (map Some bufs) s
         = Some (Inr (bufs ! 0), r\<lparr>exhausted := True\<rparr>, freeThreadID (threadID r) w)"
  using assms by (simp add: js_get_map_Some0)

subsection \<open>Runs of text leaves\<close>

lemma render_Text:
  "render E (Text t) r w =
     Inr (separatedTexts E (makeStaticMarkup r) (previousWasTextNode r) [t],
          r\<lparr>previousWasTextNode := (previousWasTextNode r \<or> (t \<noteq> '''' \<and> \<not> makeStaticMarkup r))\<rparr>, w)"
  by (cases "previousWasTextNode r") (auto simp: render_def)

lemma separatedTexts_Cons:
  "separatedTexts E static prev (t # ts) =
     separatedTexts E static prev [t] @ separatedTexts E static (prev \<or> (t \<noteq> '''' \<and> \<not> static)) ts"
  by (cases prev) auto

lemma drop_eq_ConsD:
  assumes "drop i cs = x # xs"
  shows "i < length cs \<and> cs ! i = x \<and> drop (Suc i) cs = xs"
proof -
  have i: "i < length cs" using assms by (cases "i < length cs") auto
  from Cons_nth_drop_Suc[OF i] assms show ?thesis using i by simp
qed

lemma texts_run:
  assumes "stack r = Frame ty cs i ft fb # rest" and "drop i cs = map Text ts @ after"
    and "suspenseDepth r = d" and "length bufs = Suc d"
    and "bytes = \<infinity> \<or> (0 < d \<and> enat (length (bufs ! 0)) < bytes)"
  shows "\<exists>b. readLoop (length ts + n) E bytes r w (map Some bufs) False
           = readLoop n E bytes
               (r\<lparr>stack := Frame ty cs (i + length ts) ft fb # rest, previousWasTextNode := b\<rparr>) w
               (map Some (bufs[d := bufs ! d
                   @ separatedTexts E (makeStaticMarkup r) (previousWasTextNode r) ts])) False"
  using assms
proof (induction ts arbitrary: r i bufs)
  case Nil
  have e: "r\<lparr>stack := Frame ty cs i ft fb # rest, previousWasTextNode := previousWasTextNode r\<rparr> = r"
    using Nil.prems(1) by simp
  have l: "bufs[d := bufs ! d] = bufs" by simp
  show ?case
    by (rule exI[of _ "previousWasTextNode r"]) (simp only: e l list.size add_0 add_0_right separatedTexts.simps append_Nil2)
next
  case (Cons t ts)
  let ?frame = "Frame ty cs i ft fb"
  have i: "i < length cs" and ci: "cs ! i = Text t" and dr: "drop (Suc i) cs = map Text ts @ after"
    using drop_eq_ConsD[of i cs "Text t" "map Text ts @ after"] Cons.prems(2) by simp_all
  let ?s = "separatedTexts E (makeStaticMarkup r) (previousWasTextNode r) [t]"
  let ?b = "previousWasTextNode r \<or> (t \<noteq> '''' \<and> \<not> makeStaticMarkup r)"
  let ?r2 = "r\<lparr>stack := Frame ty cs (Suc i) ft fb # rest, previousWasTextNode := ?b\<rparr>"
  let ?bufs2 = "bufs[d := bufs ! d @ ?s]"
  have cond: "enat (length (bufs ! 0)) < bytes" using Cons.prems(5) by auto
  have ne: "bufs \<noteq> []" using Cons.prems(4) by auto
  have rc: "readChild E ?frame rest r w (map Some bufs) = Inr (?r2, w, map Some ?bufs2, False)"
    using Cons.prems(3,4) ci
    by (simp add: readChild_def Let_def render_Text advance_def pushOut_map_Some del: separatedTexts.simps)
  have step: "readLoop (Suc (length ts + n)) E bytes r w (map Some bufs) False
              = readLoop (length ts + n) E bytes ?r2 w (map Some ?bufs2) False"
    by (rule readLoop_child[OF ne cond Cons.prems(1) _ rc]) (simp add: i)
  have p5: "bytes = \<infinity> \<or> (0 < d \<and> enat (length (?bufs2 ! 0)) < bytes)"
    using Cons.prems(5) by auto
  from Cons.IH[of ?r2 "Suc i" ?bufs2] dr Cons.prems(3,4) p5
  obtain b where ih: "readLoop (length ts + n) E bytes ?r2 w (map Some ?bufs2) False
       = readLoop n E bytes
               (?r2\<lparr>stack := Frame ty cs (Suc i + length ts) ft fb # rest, previousWasTextNode := b\<rparr>) w
               (map Some (?bufs2[d := ?bufs2 ! d
                   @ separatedTexts E (makeStaticMarkup ?r2) (previousWasTextNode ?r2) ts])) False"
    by auto
  have "?bufs2[d := ?bufs2 ! d @ separatedTexts E (makeStaticMarkup ?r2) (previousWasTextNode ?r2) ts]
        = bufs[d := bufs ! d @ separatedTexts E (makeStaticMarkup r) (previousWasTextNode r) (t # ts)]"
    using Cons.prems(4) separatedTexts_Cons[of E "makeStaticMarkup r" "previousWasTextNode r" t ts]
    by (simp del: separatedTexts.simps)
  then show ?case using step ih by (intro exI[of _ b]) (simp del: separatedTexts.simps)
qed

lemma readExit_plain:
  assumes "ftype frame = TNull \<or> ftype frame = TConsumer \<or> (\<exists>t. ftype frame = TTag t)"
    and "suspenseDepth r < length bufs"
  shows "readExit frame rest r w (map Some bufs) s
         = Inr (r\<lparr>previousWasTextNode := (if footer frame \<noteq> '''' then False else previousWasTextNode r),
                  stack := rest\<rparr>, w,
                map Some (bufs[suspenseDepth r := bufs ! suspenseDepth r @ footer frame]), s)"
  using assms by (auto simp: readExit_def Let_def js_append_map_Some)


subsection \<open>More fuel does not change a result\<close>

lemma readLoop_mono:
  "readLoop n E bytes r w out s = Some x \<Longrightarrow> readLoop (n + k) E bytes r w out s = Some x"
proof (induction n arbitrary: r w out s)
  case 0
  then show ?case by simp
next
  case (Suc n)
  show ?case
  proof (cases "js_get out 0")
    case None
    then show ?thesis using Suc.prems by simp
  next
    case (Some o0)
    show ?thesis
    proof (cases "stack r")
      case Nil
      then show ?thesis using Suc.prems Some by (simp split: if_splits)
    next
      case (Cons frame rest)
      show ?thesis
      proof (cases "if s \<or> childIndex frame \<ge> length (children frame)
                        then readExit frame rest r w out s
                        else readChild E frame rest r w out")
        case (Inl a)
        then show ?thesis using Suc.prems Some Cons by (auto split: if_splits prod.splits)
      next
        case (Inr b)
        obtain r1 w1 out1 s1 where b: "b = (r1, w1, out1, s1)" by (cases b)
        show ?thesis
        proof (cases "enat (length o0) < bytes")
          case True
          then have "readLoop n E bytes r1 w1 out1 s1 = Some x"
            using Suc.prems Some Cons Inr b by simp
          from Suc.IH[OF this] show ?thesis using Some Cons Inr b True by simp
        next
          case False
          then show ?thesis using Suc.prems Some by simp
        qed
      qed
    qed
  qed
qed

lemma read_mono: "read n E bytes r w = Some x \<Longrightarrow> read (n + k) E bytes r w = Some x"
  by (auto simp: read_def split: if_splits option.splits sum.splits prod.splits dest: readLoop_mono[where k = k])

subsection \<open>Unwinding to the nearest boundary\<close>

declare readLoop.simps [simp del]

lemma readExit_nonsuspense:
  assumes st: "stack r = f # rest" and ty: "ftype f \<noteq> TSuspense" and inv: "scopeInv base r w"
    and len: "suspenseDepth r < length bufs"
  shows "\<exists>r' w'. readExit f rest r w (map Some bufs) s
            = Inr (r', w', map Some (bufs[suspenseDepth r := bufs ! suspenseDepth r @ footer f]), s)
          \<and> stack r' = rest \<and> suspenseDepth r' = suspenseDepth r \<and> stepInv base r w r' w'
          \<and> makeStaticMarkup r' = makeStaticMarkup r \<and> isChildRenderer r' = isChildRenderer r
          \<and> previousWasTextNode r' = (if footer f \<noteq> '''' then False else previousWasTextNode r)"
proof (cases "ftype f")
  case (TProvider c)
  let ?r1 = "r\<lparr>previousWasTextNode := (if footer f \<noteq> '''' then False else previousWasTextNode r),
                 stack := rest\<rparr>"
  have pf: "isProviderFrame f" by (simp add: isProviderFrame_def TProvider)
  have ge: "0 \<le> contextIndex ?r1" using inv st pf by (simp add: scopeInv_def)
  have ok: "fst (clearProviders ?r1 w) = None" using inv by (simp add: scopeInv_def clearProviders_def)
  from clearProviders_pop[OF ge ok] obtain r2 w2 where
    p: "popProvider ?r1 w = Inr (r2, w2)"
    and f: "stack r2 = stack ?r1" "suspenseDepth r2 = suspenseDepth ?r1"
      "previousWasTextNode r2 = previousWasTextNode ?r1" "makeStaticMarkup r2 = makeStaticMarkup ?r1"
      "isChildRenderer r2 = isChildRenderer ?r1"
    by blast
  have res: "readExit f rest r w (map Some bufs) s
        = Inr (r2, w2, map Some (bufs[suspenseDepth r := bufs ! suspenseDepth r @ footer f]), s)"
    using p TProvider f len by (simp add: readExit_def Let_def js_append_map_Some)
  have "stepInv base r w r2 w2"
    by (rule readExit_inv[OF st inv disjI2[OF res]])
  then show ?thesis using res f by auto
next
  case TSuspense
  then show ?thesis using ty by simp
qed (use readExit_plain[of f r bufs rest w s] readExit_inv[OF st inv, of "map Some bufs" s] len
      in \<open>auto simp: stepInv_def\<close>)

lemma unwind_to_boundary:
  assumes "stack r = inner @ sf # rest"
    and "list_all (\<lambda>f. ftype f \<noteq> TSuspense) inner"
    and "ftype sf = TSuspense" and "fallbackFrame sf = Some fb"
    and "scopeInv base r w"
    and "suspenseDepth r = Suc d" and "length bufs = Suc (Suc d)"
    and "enat (length (bufs ! 0)) < bytes"
  shows "\<exists>r' w'. readLoop (length inner + 1 + n) E bytes r w (map Some bufs) True
            = readLoop n E bytes r' w'
                (map Some ((take (Suc d) bufs)[d := bufs ! d @ ''<!--$!-->''])) False
          \<and> stack r' = fb # rest \<and> suspenseDepth r' = d \<and> scopeInv base r' w'
          \<and> threadID r' = threadID r \<and> exhausted r' = exhausted r \<and> released w' = released w
          \<and> makeStaticMarkup r' = makeStaticMarkup r
          \<and> (footer sf \<noteq> '''' \<longrightarrow> \<not> previousWasTextNode r')"
  using assms
proof (induction inner arbitrary: r w bufs)
  case Nil
  have st: "stack r = sf # rest" using Nil.prems(1) by simp
  have ne: "bufs \<noteq> []" using Nil.prems(7) by auto
  let ?r2 = "r\<lparr>previousWasTextNode := (if footer sf \<noteq> '''' then False else previousWasTextNode r),
                 stack := rest, suspenseDepth := d\<rparr>"
  have bl: "butlast bufs = take (Suc d) bufs" using Nil.prems(7) by (simp add: butlast_conv_take)
  have ex: "readExit sf rest r w (map Some bufs) True
            = Inr (pushFrame fb ?r2, w, map Some ((take (Suc d) bufs)[d := bufs ! d @ ''<!--$!-->'']), False)"
    using Nil.prems(3,4,6,7) ne
    by (simp add: readExit_def Let_def js_pop_map_Some bl js_append_map_Some)
  have step: "readLoop (Suc n) E bytes r w (map Some bufs) True
              = readLoop n E bytes (pushFrame fb ?r2) w
                  (map Some ((take (Suc d) bufs)[d := bufs ! d @ ''<!--$!-->''])) False"
    by (rule readLoop_exit[OF ne Nil.prems(8) st _ ex]) simp
  have "stepInv base r w (pushFrame fb ?r2) w"
    by (rule readExit_inv[OF st Nil.prems(5) disjI2[OF ex]])
  then show ?case using step
    by (intro exI[of _ "pushFrame fb ?r2"] exI[of _ w]) (auto simp: pushFrame_def stepInv_def)
next
  case (Cons f inner)
  have st: "stack r = f # (inner @ sf # rest)" using Cons.prems(1) by simp
  have ty: "ftype f \<noteq> TSuspense" using Cons.prems(2) by simp
  have ne: "bufs \<noteq> []" using Cons.prems(7) by auto
  have len: "suspenseDepth r < length bufs" using Cons.prems(6,7) by simp
  let ?bufs1 = "bufs[suspenseDepth r := bufs ! suspenseDepth r @ footer f]"
  from readExit_nonsuspense[OF st ty Cons.prems(5) len, of True] obtain r1 w1 where
    ex: "readExit f (inner @ sf # rest) r w (map Some bufs) True = Inr (r1, w1, map Some ?bufs1, True)"
    and f: "stack r1 = inner @ sf # rest" "suspenseDepth r1 = suspenseDepth r" "stepInv base r w r1 w1"
      "makeStaticMarkup r1 = makeStaticMarkup r"
    by blast
  have step: "readLoop (Suc (length inner + 1 + n)) E bytes r w (map Some bufs) True
              = readLoop (length inner + 1 + n) E bytes r1 w1 (map Some ?bufs1) True"
    by (rule readLoop_exit[OF ne Cons.prems(8) st _ ex]) simp
  have a: "list_all (\<lambda>f. ftype f \<noteq> TSuspense) inner" using Cons.prems(2) by simp
  have b: "scopeInv base r1 w1" using f(3) by (simp add: stepInv_def)
  have c: "suspenseDepth r1 = Suc d" using f(2) Cons.prems(6) by simp
  have d: "length ?bufs1 = Suc (Suc d)" using Cons.prems(7) by simp
  have e: "enat (length (?bufs1 ! 0)) < bytes" using Cons.prems(6,8) by simp
  from Cons.IH[OF f(1) a Cons.prems(3,4) b c d e] obtain r' w' where
    ih: "readLoop (length inner + 1 + n) E bytes r1 w1 (map Some ?bufs1) True
            = readLoop n E bytes r' w'
                (map Some ((take (Suc d) ?bufs1)[d := ?bufs1 ! d @ ''<!--$!-->''])) False"
      "stack r' = fb # rest" "suspenseDepth r' = d" "scopeInv base r' w'"
      "threadID r' = threadID r1" "exhausted r' = exhausted r1" "released w' = released w1"
      "makeStaticMarkup r' = makeStaticMarkup r1"
      "footer sf \<noteq> '''' \<longrightarrow> \<not> previousWasTextNode r'"
    by blast
  have t: "take (Suc d) ?bufs1 = take (Suc d) bufs" "?bufs1 ! d = bufs ! d"
    using Cons.prems(6) by simp_all
  show ?case using step ih f(3,4) t
    by (intro exI[of _ r'] exI[of _ w']) (auto simp: stepInv_def)
qed

lemma render_suspending:
  "p \<notin> set (settled w) \<Longrightarrow> render E (Suspending p n) r w = Inl (Thenable p)"
  by (simp add: render_def)

lemma render_Suspense_Some:
  "render E (Suspense (Some fbk) kids) r w =
     Inr (''<!--$-->'',
          r\<lparr>stack := Frame TSuspense kids 0 ''<!--/$-->'' (Some (Frame TNull fbk 0 ''<!--/$-->'' None)) # stack r,
            suspenseDepth := suspenseDepth r + 1\<rparr>, w)"
  by (simp add: render_def pushFrame_def Let_def)

lemma fallback_output:
  assumes fresh: "newRenderer (Suspense (Some (map Text fs)) (map Text ts @ Suspending p n # post)) static w0 = (r0, w1)"
    and pend: "p \<notin> set (settled w0)"
  shows "\<exists>r' w'. read (length ts + length fs + 6) E \<infinity> r0 w1
           = Some (Inr (Some (''<!--$!-->'' @ separatedTexts E static False fs @ ''<!--/$-->'')), r', w')"
proof -
  let ?kids = "map Text ts @ Suspending p n # post"
  let ?fbk = "map Text fs"
  let ?S = "Suspense (Some ?fbk) ?kids"
  let ?fbf = "Frame TNull ?fbk 0 ''<!--/$-->'' None"
  let ?top0 = "Frame TNull [?S] 0 '''' None"
  let ?top1 = "Frame TNull [?S] 1 '''' None"
  note f = newRenderer_fields[OF fresh]
  have st0: "stack r0 = ?top0 # []" using f by simp
  have pend1: "p \<notin> set (settled w1)" using f pend by simp
  define F6 where "F6 = Suc (Suc (Suc 0))"
  define F5 where "F5 = length fs + F6"
  define F4 where "F4 = length ([]::frame list) + 1 + F5"
  define F3 where "F3 = Suc F4"
  define F2 where "F2 = length ts + F3"
  \<comment> \<open>1: the boundary is entered\<close>
  let ?ra = "r0\<lparr>stack := Frame TSuspense ?kids 0 ''<!--/$-->'' (Some ?fbf) # [?top1], suspenseDepth := 1\<rparr>"
  have c1: "readChild E ?top0 [] r0 w1 (map Some ['''']) = Inr (?ra, w1, map Some ['''', ''<!--$-->''], False)"
    using f pushOut_map_Some_new[of "['''']" "''<!--$-->''"]
    by (simp add: readChild_def Let_def render_Suspense_Some advance_def)
  have s1: "readLoop (Suc F2) E \<infinity> r0 w1 (map Some ['''']) False
            = readLoop F2 E \<infinity> ?ra w1 (map Some ['''', ''<!--$-->'']) False"
    by (rule readLoop_child[OF _ _ st0 _ c1]) simp_all
  \<comment> \<open>2: the texts before the suspending child, buffered at depth 1\<close>
  have sta: "stack ?ra = Frame TSuspense ?kids 0 ''<!--/$-->'' (Some ?fbf) # [?top1]" by simp
  have dra: "drop 0 ?kids = map Text ts @ (Suspending p n # post)" by simp
  from texts_run[OF sta dra, where d = 1 and bufs = "['''', ''<!--$-->'']" and bytes = \<infinity> and n = F3 and E = E and w = w1]
  obtain b where s2: "readLoop F2 E \<infinity> ?ra w1 (map Some ['''', ''<!--$-->'']) False
      = readLoop F3 E \<infinity>
          (?ra\<lparr>stack := Frame TSuspense ?kids (0 + length ts) ''<!--/$-->'' (Some ?fbf) # [?top1],
                previousWasTextNode := b\<rparr>) w1
          (map Some (['''', ''<!--$-->''][1 := ['''', ''<!--$-->''] ! 1
               @ separatedTexts E (makeStaticMarkup ?ra) (previousWasTextNode ?ra) ts])) False"
    unfolding F2_def by auto
  let ?buf = "''<!--$-->'' @ separatedTexts E (makeStaticMarkup ?ra) (previousWasTextNode ?ra) ts"
  let ?sfb = "Frame TSuspense ?kids (length ts) ''<!--/$-->'' (Some ?fbf)"
  let ?rb = "?ra\<lparr>stack := ?sfb # [?top1], previousWasTextNode := b\<rparr>"
  have s2': "readLoop F2 E \<infinity> ?ra w1 (map Some ['''', ''<!--$-->'']) False
             = readLoop F3 E \<infinity> ?rb w1 (map Some ['''', ?buf]) False"
    using s2 by simp
  \<comment> \<open>3: the suspending child\<close>
  let ?sfc = "Frame TSuspense ?kids (Suc (length ts)) ''<!--/$-->'' (Some ?fbf)"
  let ?rc = "?rb\<lparr>stack := ?sfc # [?top1]\<rparr>"
  have c3: "readChild E ?sfb [?top1] ?rb w1 (map Some ['''', ?buf]) = Inr (?rc, w1, map Some ['''', ?buf], True)"
    using pend1 pushOut_map_Some[of 1 "['''', ?buf]" "''''"]
    by (simp add: readChild_def Let_def render_suspending advance_def nth_append)
  have s3: "readLoop F3 E \<infinity> ?rb w1 (map Some ['''', ?buf]) False
            = readLoop F4 E \<infinity> ?rc w1 (map Some ['''', ?buf]) True"
    unfolding F3_def by (rule readLoop_child[OF _ _ _ _ c3]) simp_all
  \<comment> \<open>4: the boundary frame is replaced by the fallback frame\<close>
  have inv: "scopeInv (slots w1) ?rc w1"
    using f by (simp add: scopeInv_def clearProviders_def isProviderFrame_def fallbackPlain_def)
  have stc: "stack ?rc = [] @ ?sfc # [?top1]" by simp
  from unwind_to_boundary[OF stc _ _ _ inv, where fb = ?fbf and d = 0 and bufs = "['''', ?buf]"
      and bytes = \<infinity> and n = F5 and E = E]
  obtain rd wd where s4: "readLoop F4 E \<infinity> ?rc w1 (map Some ['''', ?buf]) True
            = readLoop F5 E \<infinity> rd wd (map Some ((take (Suc 0) ['''', ?buf])[0 := ['''', ?buf] ! 0 @ ''<!--$!-->''])) False"
    and d: "stack rd = ?fbf # [?top1]" "suspenseDepth rd = 0" "makeStaticMarkup rd = makeStaticMarkup ?rc"
      "\<not> previousWasTextNode rd"
    unfolding F4_def by auto
  have s4': "readLoop F4 E \<infinity> ?rc w1 (map Some ['''', ?buf]) True
             = readLoop F5 E \<infinity> rd wd (map Some [''<!--$!-->'']) False"
    using s4 by simp
  \<comment> \<open>5: the texts of the fallback\<close>
  have drd: "drop 0 ?fbk = map Text fs @ []" by simp
  from texts_run[OF d(1) drd, where d = 0 and bufs = "[''<!--$!-->'']" and bytes = \<infinity> and n = F6 and E = E and w = wd]
  obtain b' where s5: "readLoop F5 E \<infinity> rd wd (map Some [''<!--$!-->'']) False
      = readLoop F6 E \<infinity>
          (rd\<lparr>stack := Frame TNull ?fbk (0 + length fs) ''<!--/$-->'' None # [?top1], previousWasTextNode := b'\<rparr>) wd
          (map Some ([''<!--$!-->''][0 := [''<!--$!-->''] ! 0
               @ separatedTexts E (makeStaticMarkup rd) (previousWasTextNode rd) fs])) False"
    unfolding F5_def using d(2) by auto
  let ?o5 = "''<!--$!-->'' @ separatedTexts E static False fs"
  let ?ffe = "Frame TNull ?fbk (length fs) ''<!--/$-->'' None"
  let ?re = "rd\<lparr>stack := ?ffe # [?top1], previousWasTextNode := b'\<rparr>"
  have s5': "readLoop F5 E \<infinity> rd wd (map Some [''<!--$!-->'']) False
             = readLoop F6 E \<infinity> ?re wd (map Some [?o5]) False"
    using s5 d(3,4) f by simp
  \<comment> \<open>6, 7: the fallback frame and the top frame are left; 8: the stack is empty\<close>
  let ?o6 = "?o5 @ ''<!--/$-->''"
  let ?rf = "?re\<lparr>previousWasTextNode := False, stack := [?top1]\<rparr>"
  have e6: "readExit ?ffe [?top1] ?re wd (map Some [?o5]) False = Inr (?rf, wd, map Some [?o6], False)"
    using d(2) by (subst readExit_plain) simp_all
  have s6: "readLoop F6 E \<infinity> ?re wd (map Some [?o5]) False
            = readLoop (Suc (Suc 0)) E \<infinity> ?rf wd (map Some [?o6]) False"
    unfolding F6_def by (rule readLoop_exit[OF _ _ _ _ e6]) simp_all
  let ?rg = "?rf\<lparr>previousWasTextNode := False, stack := []\<rparr>"
  have e7: "readExit ?top1 [] ?rf wd (map Some [?o6]) False = Inr (?rg, wd, map Some [?o6], False)"
    using d(2) by (subst readExit_plain) simp_all
  have s7: "readLoop (Suc (Suc 0)) E \<infinity> ?rf wd (map Some [?o6]) False
            = readLoop (Suc 0) E \<infinity> ?rg wd (map Some [?o6]) False"
    by (rule readLoop_exit[OF _ _ _ _ e7]) simp_all
  have s8: "readLoop (Suc 0) E \<infinity> ?rg wd (map Some [?o6]) False
            = Some (Inr ([?o6] ! 0), ?rg\<lparr>exhausted := True\<rparr>, freeThreadID (threadID ?rg) wd)"
    by (rule readLoop_exhaust) simp_all
  have fuel: "length ts + length fs + 6 = Suc F2"
    by (simp add: F2_def F3_def F4_def F5_def F6_def)
  have "readLoop (Suc F2) E \<infinity> r0 w1 [Some ''''] False
        = Some (Inr ?o6, ?rg\<lparr>exhausted := True\<rparr>, freeThreadID (threadID ?rg) wd)"
    using s1 s2' s3 s4' s5' s6 s7 s8 by simp
  then show ?thesis using f unfolding fuel by (simp add: read_def)
qed

subsection \<open>The fallback of a boundary in the synchronous reader\<close>

text \<open>
  Claim C4. First part: once a child has thrown a thenable under a boundary (the loop is
  in the suspended mode at depth \<open>d + 1\<close>), the loop pops the frames above the nearest
  boundary frame \<open>sf\<close> and then that frame, drops the buffer of the boundary, pushes
  the fallback frame that \<open>sf\<close> carries in its place and appends the marker
  \<^verbatim>\<open><!--$!-->\<close> to the buffer of the enclosing depth: the buffers afterwards are made of
  the first \<open>d + 1\<close> buffers only, so nothing that was written for the boundary is
  kept, and the boundary frame with its remaining children is gone from the stack.
  Second part: a boundary with the texts \<open>fs\<close> as fallback whose children are some texts,
  then a child that suspends, then anything, pulled to the end, gives the marker, the
  encoding of the fallback and the closing marker, and nothing else, whatever the
  suspending child would render and whatever follows it.
\<close>

theorem sync_fallback:
  "(stack r = inner @ sf # rest \<and> list_all (\<lambda>f. ftype f \<noteq> TSuspense) inner
      \<and> ftype sf = TSuspense \<and> fallbackFrame sf = Some fb \<and> scopeInv base r w
      \<and> suspenseDepth r = Suc d \<and> length bufs = Suc (Suc d) \<and> enat (length (bufs ! 0)) < bytes
    \<longrightarrow> (\<exists>r' w'. readLoop (length inner + 1 + n) E bytes r w (map Some bufs) True
                    = readLoop n E bytes r' w'
                        (map Some ((take (Suc d) bufs)[d := bufs ! d @ ''<!--$!-->''])) False
                  \<and> stack r' = fb # rest \<and> suspenseDepth r' = d))
   \<and> (newRenderer (Suspense (Some (map Text fs)) (map Text ts @ Suspending p m # post)) static w0 = (r0, w1)
      \<and> p \<notin> set (settled w0)
    \<longrightarrow> (\<exists>r' w'. read (length ts + length fs + 6 + k) E \<infinity> r0 w1
                    = Some (Inr (Some (''<!--$!-->'' @ separatedTexts E static False fs @ ''<!--/$-->'')),
                            r', w')))"
proof (intro conjI impI)
  assume a: "stack r = inner @ sf # rest \<and> list_all (\<lambda>f. ftype f \<noteq> TSuspense) inner
      \<and> ftype sf = TSuspense \<and> fallbackFrame sf = Some fb \<and> scopeInv base r w
      \<and> suspenseDepth r = Suc d \<and> length bufs = Suc (Suc d) \<and> enat (length (bufs ! 0)) < bytes"
  from unwind_to_boundary[of r inner sf rest fb base w d bufs bytes n E] a
  show "\<exists>r' w'. readLoop (length inner + 1 + n) E bytes r w (map Some bufs) True
                    = readLoop n E bytes r' w'
                        (map Some ((take (Suc d) bufs)[d := bufs ! d @ ''<!--$!-->''])) False
                  \<and> stack r' = fb # rest \<and> suspenseDepth r' = d"
    by blast
next
  assume b: "newRenderer (Suspense (Some (map Text fs)) (map Text ts @ Suspending p m # post)) static w0 = (r0, w1)
      \<and> p \<notin> set (settled w0)"
  from fallback_output[of fs ts p m post static w0 r0 w1 E] b
  obtain r' w' where "read (length ts + length fs + 6) E \<infinity> r0 w1
           = Some (Inr (Some (''<!--$!-->'' @ separatedTexts E static False fs @ ''<!--/$-->'')), r', w')"
    by blast
  from read_mono[OF this, of k]
  show "\<exists>r' w'. read (length ts + length fs + 6 + k) E \<infinity> r0 w1
                    = Some (Inr (Some (''<!--$!-->'' @ separatedTexts E static False fs @ ''<!--/$-->'')),
                            r', w')"
    by blast
qed

theorem sync_fallback_witness:
  "scopeInv (slots (sampleWorld []))
      \<lparr>threadID = 0,
       stack = [Frame TNull [] 0 '''' None,
                Frame TSuspense [Suspending 0 Null] 1 ''<!--/$-->'' (Some (Frame TNull [] 0 ''<!--/$-->'' None))],
       exhausted = False, previousWasTextNode = False, makeStaticMarkup = False,
       suspenseDepth = Suc 0, contextIndex = - 1, contextStack = [], contextValueStack = [],
       outQueue = [], isChildRenderer = False\<rparr> (sampleWorld [])
   \<and> (\<exists>r' w'. readLoop (length [Frame TNull [] 0 '''' None] + 1 + 0) sampleEncoder \<infinity>
          \<lparr>threadID = 0,
           stack = [Frame TNull [] 0 '''' None,
                    Frame TSuspense [Suspending 0 Null] 1 ''<!--/$-->'' (Some (Frame TNull [] 0 ''<!--/$-->'' None))],
           exhausted = False, previousWasTextNode = False, makeStaticMarkup = False,
           suspenseDepth = Suc 0, contextIndex = - 1, contextStack = [], contextValueStack = [],
           outQueue = [], isChildRenderer = False\<rparr> (sampleWorld [])
          (map Some [''before'', ''<!--$-->partial'']) True
        = readLoop 0 sampleEncoder \<infinity> r' w' (map Some [''before<!--$!-->'']) False
        \<and> stack r' = [Frame TNull [] 0 ''<!--/$-->'' None] \<and> suspenseDepth r' = 0)
   \<and> 0 \<notin> set (settled (sampleWorld []))
   \<and> (\<exists>r' w'. read 8 sampleEncoder \<infinity>
          (fst (newRenderer (Suspense (Some [Text ''f'']) [Text ''a'', Suspending 0 (Text ''b''), Text ''c''])
                  False (sampleWorld [])))
          (snd (newRenderer (Suspense (Some [Text ''f'']) [Text ''a'', Suspending 0 (Text ''b''), Text ''c''])
                  False (sampleWorld [])))
        = Some (Inr (Some ''<!--$!-->f<!--/$-->''), r', w'))"
proof -
  let ?fb = "Frame TNull [] 0 ''<!--/$-->'' None"
  let ?sf = "Frame TSuspense [Suspending 0 Null] 1 ''<!--/$-->'' (Some ?fb)"
  let ?in = "[Frame TNull [] 0 '''' None]"
  let ?r = "\<lparr>threadID = 0, stack = [Frame TNull [] 0 '''' None, ?sf],
       exhausted = False, previousWasTextNode = False, makeStaticMarkup = False,
       suspenseDepth = Suc 0, contextIndex = - 1, contextStack = [], contextValueStack = [],
       outQueue = [], isChildRenderer = False\<rparr>"
  let ?t = "Suspense (Some [Text ''f'']) [Text ''a'', Suspending 0 (Text ''b''), Text ''c'']"
  have inv: "scopeInv (slots (sampleWorld [])) ?r (sampleWorld [])"
    by (simp add: scopeInv_def clearProviders_def isProviderFrame_def fallbackPlain_def)
  have p: "0 \<notin> set (settled (sampleWorld []))" by (simp add: sampleWorld_def)
  have h1: "stack ?r = ?in @ ?sf # [] \<and> list_all (\<lambda>f. ftype f \<noteq> TSuspense) ?in
      \<and> ftype ?sf = TSuspense \<and> fallbackFrame ?sf = Some ?fb \<and> scopeInv (slots (sampleWorld [])) ?r (sampleWorld [])
      \<and> suspenseDepth ?r = Suc 0 \<and> length [''before'', ''<!--$-->partial''] = Suc (Suc 0)
      \<and> enat (length ([''before'', ''<!--$-->partial''] ! 0)) < \<infinity>"
    using inv by simp
  have h2: "newRenderer (Suspense (Some (map Text [''f''])) (map Text [''a''] @ Suspending 0 (Text ''b'') # [Text ''c'']))
              False (sampleWorld []) = (fst (newRenderer ?t False (sampleWorld [])), snd (newRenderer ?t False (sampleWorld [])))
            \<and> 0 \<notin> set (settled (sampleWorld []))"
    using p by simp
  note t = sync_fallback[where r = ?r and inner = ?in and sf = ?sf and rest = "[]" and fb = ?fb
      and base = "slots (sampleWorld [])" and w = "sampleWorld []" and d = 0
      and bufs = "[''before'', ''<!--$-->partial'']" and bytes = \<infinity> and n = 0 and E = sampleEncoder
      and fs = "[''f'']" and ts = "[''a'']" and p = 0 and m = "Text ''b''" and post = "[Text ''c'']"
      and static = False and ?w0.0 = "sampleWorld []" and ?r0.0 = "fst (newRenderer ?t False (sampleWorld []))"
      and ?w1.0 = "snd (newRenderer ?t False (sampleWorld []))" and k = 0]
  from t h1 have 1: "\<exists>r' w'. readLoop (length ?in + 1 + 0) sampleEncoder \<infinity> ?r (sampleWorld [])
          (map Some [''before'', ''<!--$-->partial'']) True
        = readLoop 0 sampleEncoder \<infinity> r' w' (map Some [''before<!--$!-->'']) False
        \<and> stack r' = [?fb] \<and> suspenseDepth r' = 0"
    by simp
  from t h2 have 2: "\<exists>r' w'. read 8 sampleEncoder \<infinity>
          (fst (newRenderer ?t False (sampleWorld []))) (snd (newRenderer ?t False (sampleWorld [])))
        = Some (Inr (Some ''<!--$!-->f<!--/$-->''), r', w')"
    by (simp add: sampleEncoder_def)
  from inv 1 p 2 show ?thesis by blast
qed

subsection \<open>The separator between text leaves\<close>















subsection \<open>The thread id of a child renderer\<close>

text \<open>
  Claim C1. A child renderer is built with the render context of its parent and takes the
  thread id of the parent. \<^verbatim>\<open>destroy\<close> of the subclass does not release the id of a child
  renderer, as its comment says; the loop of \<^verbatim>\<open>readAsync\<close> releases \<^verbatim>\<open>this.threadID\<close> when
  it finds the frame stack empty, whatever the renderer is. First part: a child renderer
  for the text \<^verbatim>\<open>b\<close> with the id 5 of a parent that still holds it; \<^verbatim>\<open>destroy\<close> on it
  releases nothing, \<^verbatim>\<open>readAsync(Infinity)\<close> on it releases 5. Second part: the whole
  lifetime of a top-level session over a boundary whose only child suspends on promise 0:
  the loop of the parent runs to exhaustion and releases the id 0; the promise settles,
  the callback builds the child renderer and reads it, and the id 0 is released a second
  time.
\<close>

theorem child_read_releases_parent_id:
  "(case destroyAsync
      (fst (newRendererAsync (Text ''b'') False
             (Some \<lparr>rc_threadID = 5, rc_previousWasTextNode = False, rc_contextIndex = - 1,
                     rc_contextStack = [], rc_contextValues = [], rc_contextValueStack = []\<rparr>)
             ((sampleWorld [])\<lparr>held := [5]\<rparr>)))
      (snd (newRendererAsync (Text ''b'') False
             (Some \<lparr>rc_threadID = 5, rc_previousWasTextNode = False, rc_contextIndex = - 1,
                     rc_contextStack = [], rc_contextValues = [], rc_contextValueStack = []\<rparr>)
             ((sampleWorld [])\<lparr>held := [5]\<rparr>)))
    of (e, r, w) \<Rightarrow> e = None \<and> isChildRenderer r \<and> threadID r = 5 \<and> exhausted r \<and> released w = [])
   \<and> (case readAsync 10 sampleEncoder \<infinity>
      (fst (newRendererAsync (Text ''b'') False
             (Some \<lparr>rc_threadID = 5, rc_previousWasTextNode = False, rc_contextIndex = - 1,
                     rc_contextStack = [], rc_contextValues = [], rc_contextValueStack = []\<rparr>)
             ((sampleWorld [])\<lparr>held := [5]\<rparr>)))
      (snd (newRendererAsync (Text ''b'') False
             (Some \<lparr>rc_threadID = 5, rc_previousWasTextNode = False, rc_contextIndex = - 1,
                     rc_contextStack = [], rc_contextValues = [], rc_contextValueStack = []\<rparr>)
             ((sampleWorld [])\<lparr>held := [5]\<rparr>)))
    of Some (Fulfilled (Some s), r, w) \<Rightarrow>
         s = ''b'' \<and> isChildRenderer r \<and> threadID r = 5 \<and> released w = [5] \<and> held w = [0]
     | _ \<Rightarrow> False)
   \<and> (case asyncLoop 10 sampleEncoder \<infinity>
          (fst (newRendererAsync (Suspense (Some []) [Suspending 0 (Text ''b'')]) False None (sampleWorld [])))
          (snd (newRendererAsync (Suspense (Some []) [Suspending 0 (Text ''b'')]) False None (sampleWorld [])))
        of Some (Inr (r1, w1)) \<Rightarrow>
             threadID r1 = 0 \<and> \<not> isChildRenderer r1 \<and> exhausted r1 \<and> released w1 = [0]
             \<and> (case flattenAndResolveQueue 20 sampleEncoder \<infinity> (outQueue r1) (w1\<lparr>settled := [0]\<rparr>)
                 of Some (Fulfilled (Some s), q, w2) \<Rightarrow>
                      s = ''<!--$-->b<!--/$-->'' \<and> released w2 = [0, 0]
                  | _ \<Rightarrow> False)
         | _ \<Rightarrow> False)"
  by code_simp

subsection \<open>The context slots of a child renderer\<close>

text \<open>
  Claim C3. After a session has exhausted or has been destroyed, every shared context
  slot it touched should hold its value of before the session. The session of a child
  renderer does not keep this. Its constructor writes the values of the render context
  into the slots of the contexts on the cloned stack. \<^verbatim>\<open>renderEventually\<close> calls
  \<^verbatim>\<open>destroy\<close> on the child after its \<^verbatim>\<open>readAsync(Infinity)\<close>, which is where
  \<^verbatim>\<open>clearProviders\<close> would write the recorded values back; but a \<^verbatim>\<open>readAsync\<close> that ends
  the traversal has set \<^verbatim>\<open>exhausted\<close>, and \<^verbatim>\<open>destroy\<close> on an exhausted renderer returns
  at once. Only when the read of the child is rejected does \<^verbatim>\<open>destroy\<close> find the
  renderer not exhausted and drain the entries.

  First part: a provider of the value 5 for context 0 around a boundary whose child
  suspends on promise 0 and then reads the context. When the loop of the parent has run
  to exhaustion the slot of the session is back at its value of before the session. The
  promise settles; the child renderer built from the queued render context sets the slot
  to 5, renders, is exhausted, and \<^verbatim>\<open>destroy\<close> leaves the slot at 5; so does the whole
  of \<^verbatim>\<open>flattenAndResolveQueue\<close>. Second part: the same tree with a child that throws
  an error after it has resumed: the read of the child is rejected, the renderer is not
  exhausted, and \<^verbatim>\<open>destroy\<close> puts the slot back.
\<close>

theorem resumed_child_leaves_slot:
  "slots (sampleWorld []) 0 0 = None
   \<and> (case asyncLoop 12 sampleEncoder \<infinity>
          (fst (newRendererAsync
                  (Provider 0 (Some 5)
                     [Suspense (Some [])
                        [Suspending 0 (Consumer 0 (\<lambda>v. [Text (if v = Some 5 then ''five'' else ''none'')]))]])
                  False None (sampleWorld [])))
          (snd (newRendererAsync
                  (Provider 0 (Some 5)
                     [Suspense (Some [])
                        [Suspending 0 (Consumer 0 (\<lambda>v. [Text (if v = Some 5 then ''five'' else ''none'')]))]])
                  False None (sampleWorld [])))
        of Some (Inr (r1, w1)) \<Rightarrow>
             exhausted r1 \<and> slots w1 0 0 = None
             \<and> (case outQueue r1 of
                  [[Str s0, Boundary [Str s1, Resume p child static rc] foot, Str s2]] \<Rightarrow>
                    rc_threadID rc = 0 \<and> rc_contextIndex rc = 0 \<and> rc_contextStack rc = [Some 0]
                    \<and> rc_contextValues rc = [Some 5] \<and> rc_contextValueStack rc = [None]
                    \<and> (case newRendererAsync child static (Some rc) (w1\<lparr>settled := [0]\<rparr>) of
                          (rc0, wc0) \<Rightarrow>
                            slots wc0 0 0 = Some 5
                            \<and> (case readAsync 10 sampleEncoder \<infinity> rc0 wc0 of
                                  Some (Fulfilled (Some s), rc1, wc1) \<Rightarrow>
                                    s = ''five'' \<and> exhausted rc1 \<and> slots wc1 0 0 = Some 5
                                    \<and> (case destroyAsync rc1 wc1 of
                                          (e, rc2, wc2) \<Rightarrow> e = None \<and> slots wc2 0 0 = Some 5)
                                | _ \<Rightarrow> False))
                | _ \<Rightarrow> False)
             \<and> (case flattenAndResolveQueue 20 sampleEncoder \<infinity> (outQueue r1) (w1\<lparr>settled := [0]\<rparr>)
                 of Some (Fulfilled (Some s), q, w2) \<Rightarrow>
                      s = ''<!--$-->five<!--/$-->'' \<and> slots w2 0 0 = Some 5
                  | _ \<Rightarrow> False)
         | _ \<Rightarrow> False)
   \<and> (case asyncLoop 12 sampleEncoder \<infinity>
          (fst (newRendererAsync
                  (Provider 0 (Some 5)
                     [Suspense (Some []) [Suspending 0 (Consumer 0 (\<lambda>v. [Throwing]))]])
                  False None (sampleWorld [])))
          (snd (newRendererAsync
                  (Provider 0 (Some 5)
                     [Suspense (Some []) [Suspending 0 (Consumer 0 (\<lambda>v. [Throwing]))]])
                  False None (sampleWorld [])))
        of Some (Inr (r1, w1)) \<Rightarrow>
             exhausted r1 \<and> slots w1 0 0 = None
             \<and> (case outQueue r1 of
                  [[Str s0, Boundary [Str s1, Resume p child static rc] foot, Str s2]] \<Rightarrow>
                    (case newRendererAsync child static (Some rc) (w1\<lparr>settled := [0]\<rparr>) of
                          (rc0, wc0) \<Rightarrow>
                            slots wc0 0 0 = Some 5
                            \<and> (case readAsync 10 sampleEncoder \<infinity> rc0 wc0 of
                                  Some (Rejected e, rc1, wc1) \<Rightarrow>
                                    e = ComponentError \<and> \<not> exhausted rc1 \<and> slots wc1 0 0 = Some 5
                                    \<and> (case destroyAsync rc1 wc1 of
                                          (e, rc2, wc2) \<Rightarrow> e = None \<and> slots wc2 0 0 = None)
                                | _ \<Rightarrow> False))
                | _ \<Rightarrow> False)
             \<and> (case flattenAndResolveQueue 20 sampleEncoder \<infinity> (outQueue r1) (w1\<lparr>settled := [0]\<rparr>)
                 of Some (Unsettled, q, w2) \<Rightarrow> slots w2 0 0 = None
                  | _ \<Rightarrow> False)
         | _ \<Rightarrow> False)"
  by code_simp

subsection \<open>A thenable thrown in the asynchronous reader\<close>

text \<open>
  Claim C2, as amended. When the loop of \<^verbatim>\<open>readAsync\<close> is about to render a child whose
  resolution throws a thenable (the renderer is not exhausted, the head of the queue is
  below the budget, the top frame has a next child), what happens depends on the flag that
  the loop hands to \<^verbatim>\<open>renderEventually\<close>, \<^verbatim>\<open>suspenseDepth > 0 || isChildRenderer\<close>. When
  it holds, nothing is raised: the promise of the re-rendering of the child, with the
  render context of this moment, is appended to the buffer of the current depth, the child
  index has advanced, and the loop goes on with the next sibling. When the depth is zero
  and the renderer is not a child renderer, the invariant of \<^verbatim>\<open>renderEventually\<close> fails and
  \<^verbatim>\<open>readAsync\<close> is rejected with the no-fallback error.
\<close>

theorem async_suspension:
  assumes "\<not> exhausted r" and "headBelow (outQueue r) bytes = Some True"
    and "stack r = frame # rest" and "childIndex frame < length (children frame)"
    and "render E (children frame ! childIndex frame) (r\<lparr>stack := advance frame # rest\<rparr>) w = Inl (Thenable p)"
    and "suspenseDepth r < length (outQueue r)"
  shows "(0 < suspenseDepth r \<or> isChildRenderer r \<longrightarrow>
            asyncLoop (Suc n) E bytes r w
              = asyncLoop n E bytes
                  (r\<lparr>stack := advance frame # rest,
                     outQueue := (outQueue r)[suspenseDepth r := outQueue r ! suspenseDepth r
                        @ [Resume p (children frame ! childIndex frame) (makeStaticMarkup r)
                             (getClonedRenderContext r w)]]\<rparr>) w)
       \<and> (suspenseDepth r = 0 \<and> \<not> isChildRenderer r \<longrightarrow>
            asyncLoop (Suc n) E bytes r w
              = Some (Inl (UnhandledSuspension, r\<lparr>stack := advance frame # rest\<rparr>, w))
            \<and> readAsync (Suc (Suc n)) E bytes r w
              = Some (Rejected UnhandledSuspension, r\<lparr>stack := advance frame # rest\<rparr>, w))"
  using assms
  by (auto simp: asyncChild_def renderEventually_def pushToOutQueue_def Let_def getClonedRenderContext_def)

theorem async_suspension_witness:
  "isChildRenderer (fst (newRendererAsync (Fragment [Suspending 0 (Text ''a''), Text ''b'']) False
       (Some \<lparr>rc_threadID = 0, rc_previousWasTextNode = False, rc_contextIndex = - 1,
               rc_contextStack = [], rc_contextValues = [], rc_contextValueStack = []\<rparr>)
       ((sampleWorld [])\<lparr>held := [0]\<rparr>)))
   \<and> (case asyncLoop (Suc 3) sampleEncoder \<infinity>
          (fst (newRendererAsync (Fragment [Suspending 0 (Text ''a''), Text ''b'']) False
             (Some \<lparr>rc_threadID = 0, rc_previousWasTextNode = False, rc_contextIndex = - 1,
                     rc_contextStack = [], rc_contextValues = [], rc_contextValueStack = []\<rparr>)
             ((sampleWorld [])\<lparr>held := [0]\<rparr>)))
          (snd (newRendererAsync (Fragment [Suspending 0 (Text ''a''), Text ''b'']) False
             (Some \<lparr>rc_threadID = 0, rc_previousWasTextNode = False, rc_contextIndex = - 1,
                     rc_contextStack = [], rc_contextValues = [], rc_contextValueStack = []\<rparr>)
             ((sampleWorld [])\<lparr>held := [0]\<rparr>)))
        of Some (Inr (r', w')) \<Rightarrow>
             exhausted r'
             \<and> (case outQueue r' of
                   [[Str s0, Resume p c st rc, Str s1]] \<Rightarrow> s0 = '''' \<and> p = 0 \<and> s1 = ''b''
                 | _ \<Rightarrow> False)
         | _ \<Rightarrow> False)
   \<and> suspenseDepth (fst (newRendererAsync (Fragment [Suspending 0 (Text ''a''), Text ''b'']) False None (sampleWorld []))) = 0
   \<and> readAsync (Suc (Suc 0)) sampleEncoder \<infinity>
        (fst (newRendererAsync (Fragment [Suspending 0 (Text ''a''), Text ''b'']) False None (sampleWorld [])))
        (snd (newRendererAsync (Fragment [Suspending 0 (Text ''a''), Text ''b'']) False None (sampleWorld [])))
      = Some (Rejected UnhandledSuspension,
              (fst (newRendererAsync (Fragment [Suspending 0 (Text ''a''), Text ''b'']) False None (sampleWorld [])))
                \<lparr>stack := [Frame TNull [Suspending 0 (Text ''a''), Text ''b''] 1 '''' None]\<rparr>,
              snd (newRendererAsync (Fragment [Suspending 0 (Text ''a''), Text ''b'']) False None (sampleWorld [])))"
proof -
  let ?kids = "[Suspending 0 (Text ''a''), Text ''b'']"
  let ?rc = "\<lparr>rc_threadID = 0, rc_previousWasTextNode = False, rc_contextIndex = - 1,
              rc_contextStack = [], rc_contextValues = [], rc_contextValueStack = []\<rparr>"
  let ?X = "newRendererAsync (Fragment ?kids) False (Some ?rc) ((sampleWorld [])\<lparr>held := [0]\<rparr>)"
  let ?Y = "newRendererAsync (Fragment ?kids) False None (sampleWorld [])"
  let ?frame = "Frame TNull ?kids 0 '''' None"
  have f: "stack (fst ?X) = [?frame]" "suspenseDepth (fst ?X) = 0" "\<not> exhausted (fst ?X)"
    "isChildRenderer (fst ?X)" "outQueue (fst ?X) = [[Str '''']]" "settled (snd ?X) = []"
    by (simp_all add: newRendererAsync_def newRenderer_def allocThreadID_def Let_def sampleWorld_def
        seedSlots_def split: prod.splits)
  have g: "stack (fst ?Y) = [?frame]" "suspenseDepth (fst ?Y) = 0" "\<not> exhausted (fst ?Y)"
    "\<not> isChildRenderer (fst ?Y)" "outQueue (fst ?Y) = [[Str '''']]" "settled (snd ?Y) = []"
    by (simp_all add: newRendererAsync_def newRenderer_def allocThreadID_def Let_def sampleWorld_def
        split: prod.splits)
  have p: "render sampleEncoder (children ?frame ! childIndex ?frame) ((fst ?X)\<lparr>stack := advance ?frame # []\<rparr>) (snd ?X)
           = Inl (Thenable 0)"
    by (simp add: render_def f)
  have q: "render sampleEncoder (children ?frame ! childIndex ?frame) ((fst ?Y)\<lparr>stack := advance ?frame # []\<rparr>) (snd ?Y)
           = Inl (Thenable 0)"
    by (simp add: render_def g)
  have h: "headBelow (outQueue (fst ?X)) \<infinity> = Some True" "childIndex ?frame < length (children ?frame)"
    "suspenseDepth (fst ?X) < length (outQueue (fst ?X))"
    by (simp_all add: f headBelow_def)
  let ?r1 = "(fst ?X)\<lparr>stack := advance ?frame # [],
      outQueue := (outQueue (fst ?X))[suspenseDepth (fst ?X) := outQueue (fst ?X) ! suspenseDepth (fst ?X)
         @ [Resume 0 (children ?frame ! childIndex ?frame) (makeStaticMarkup (fst ?X))
              (getClonedRenderContext (fst ?X) (snd ?X))]]\<rparr>"
  have c: "case asyncLoop 3 sampleEncoder \<infinity> ?r1 (snd ?X)
        of Some (Inr (r', w')) \<Rightarrow>
             exhausted r'
             \<and> (case outQueue r' of
                   [[Str s0, Resume p c st rc, Str s1]] \<Rightarrow> s0 = '''' \<and> p = 0 \<and> s1 = ''b''
                 | _ \<Rightarrow> False)
         | _ \<Rightarrow> False"
    by code_simp
  from async_suspension[OF f(3) h(1) f(1) h(2) p h(3), where n = 3] f(4)
  have eq: "asyncLoop (Suc 3) sampleEncoder \<infinity> (fst ?X) (snd ?X) = asyncLoop 3 sampleEncoder \<infinity> ?r1 (snd ?X)"
    by blast
  have 1: "case asyncLoop (Suc 3) sampleEncoder \<infinity> (fst ?X) (snd ?X)
        of Some (Inr (r', w')) \<Rightarrow>
             exhausted r'
             \<and> (case outQueue r' of
                   [[Str s0, Resume p c st rc, Str s1]] \<Rightarrow> s0 = '''' \<and> p = 0 \<and> s1 = ''b''
                 | _ \<Rightarrow> False)
         | _ \<Rightarrow> False"
    unfolding eq by (rule c)
  have 2: "readAsync (Suc (Suc 0)) sampleEncoder \<infinity> (fst ?Y) (snd ?Y)
      = Some (Rejected UnhandledSuspension, (fst ?Y)\<lparr>stack := [Frame TNull ?kids 1 '''' None]\<rparr>, snd ?Y)"
    using async_suspension[where r = "fst ?Y" and bytes = \<infinity> and frame = ?frame and rest = "[]"
        and E = sampleEncoder and w = "snd ?Y" and p = 0 and n = 0, OF g(3) _ g(1) _ q]
    by (simp add: g headBelow_def advance_def)
  from 1 2 f(4) g(2) show ?thesis by blast
qed

text \<open>
  The claim as it is written fails: a top-level renderer whose first child suspends with
  no boundary around it is rejected, and the sibling after it is never rendered.
\<close>

theorem async_unhandled_counterexample:
  "map_option fst (readAsync 5 sampleEncoder \<infinity>
      (fst (newRendererAsync (Fragment [Suspending 0 (Text ''a''), Text ''b'']) False None (sampleWorld [])))
      (snd (newRendererAsync (Fragment [Suspending 0 (Text ''a''), Text ''b'']) False None (sampleWorld []))))
   = Some (Rejected UnhandledSuspension)"
  by code_simp

subsection \<open>A boundary without a fallback\<close>

lemma no_fallback_unhandled:
  assumes "newRenderer (Suspense None (Suspending p m # post)) static w0 = (r0, w1)"
    and "p \<notin> set (settled w0)" and "0 < bytes"
  shows "\<exists>r'. read 2 E bytes r0 w1 = Some (Inl UnhandledSuspension, r', w1)
              \<and> stack r' = [Frame TNull (Suspending p m # post) 1 '''' None,
                             Frame TNull [Suspense None (Suspending p m # post)] 1 '''' None]
              \<and> suspenseDepth r' = 0"
  using assms
  by (clarsimp simp: newRenderer_def allocThreadID_def Let_def eval_nat_numeral read_def readLoop.simps
      js_get_def readChild_def render_def pushFrame_def plainFrame_def advance_def pushOut_def js_append_def
      js_set_def js_str_def zero_enat_def[symmetric])

lemma no_fallback_outer:
  assumes "newRenderer (Suspense (Some [Text f]) [Suspense None (Suspending p m # post)]) static w0 = (r0, w1)"
    and "p \<notin> set (settled w0)"
  shows "\<exists>r' w'. read 9 E \<infinity> r0 w1
           = Some (Inr (Some (''<!--$!-->'' @ separatedTexts E static False [f] @ ''<!--/$-->'')), r', w')"
  using assms
  by (clarsimp simp: newRenderer_def allocThreadID_def Let_def eval_nat_numeral read_def readLoop.simps
      js_get_def readChild_def readExit_def render_def pushFrame_def plainFrame_def advance_def pushOut_def
      js_append_def js_pop_def js_str_def js_set_def freeThreadID_def)

lemma no_fallback_async:
  assumes "newRendererAsync (Suspense None (Suspending p m # post)) static None w0 = (r0, w1)"
    and "p \<notin> set (settled w0)" and "0 < bytes"
  shows "\<exists>r'. readAsync 3 E bytes r0 w1 = Some (Rejected UnhandledSuspension, r', w1)"
  using assms
  by (clarsimp simp: newRendererAsync_def newRenderer_def allocThreadID_def Let_def eval_nat_numeral
      headBelow_def asyncChild_def renderEventually_def render_def pushFrame_def plainFrame_def advance_def
      pushToOutQueue_def isDrained_def zero_enat_def[symmetric])

text \<open>
  Claim C10. For a \<^verbatim>\<open>Suspense\<close> element whose \<^verbatim>\<open>fallback\<close> is undefined, \<^verbatim>\<open>render\<close> returns
  the empty string and pushes a frame of type \<^verbatim>\<open>null\<close> with the children and no fallback
  frame, and leaves the boundary depth as it is: exactly what it does for a fragment. With
  a fallback it returns the opening marker, pushes a boundary frame that carries the
  fallback frame, and increments the depth. So a child that suspends right under a
  boundary without fallback is handled by the boundary above, whose fallback is written
  (fourth part), and when there is none, the synchronous \<^verbatim>\<open>read\<close> throws the no-fallback
  error (third part) and \<^verbatim>\<open>readAsync\<close> is rejected with it (last part).
\<close>

theorem suspense_without_fallback:
  "render E (Suspense None kids) r w
     = Inr ('''', r\<lparr>stack := Frame TNull kids 0 '''' None # stack r\<rparr>, w)
   \<and> render E (Suspense None kids) r w = render E (Fragment kids) r w
   \<and> render E (Suspense (Some fbk) kids) r w
     = Inr (''<!--$-->'',
            r\<lparr>stack := Frame TSuspense kids 0 ''<!--/$-->'' (Some (Frame TNull fbk 0 ''<!--/$-->'' None)) # stack r,
              suspenseDepth := suspenseDepth r + 1\<rparr>, w)
   \<and> (newRenderer (Suspense None (Suspending p m # post)) static w0 = (r0, w1)
        \<and> p \<notin> set (settled w0) \<and> 0 < bytes
      \<longrightarrow> (\<exists>r'. read (2 + k) E bytes r0 w1 = Some (Inl UnhandledSuspension, r', w1)
                \<and> suspenseDepth r' = 0))
   \<and> (newRenderer (Suspense (Some [Text f]) [Suspense None (Suspending p m # post)]) static w0 = (r0, w1)
        \<and> p \<notin> set (settled w0)
      \<longrightarrow> (\<exists>r' w'. read (9 + k) E \<infinity> r0 w1
                = Some (Inr (Some (''<!--$!-->'' @ separatedTexts E static False [f] @ ''<!--/$-->'')), r', w')))
   \<and> (newRendererAsync (Suspense None (Suspending p m # post)) static None w0 = (r0, w1)
        \<and> p \<notin> set (settled w0) \<and> 0 < bytes
      \<longrightarrow> (\<exists>r'. readAsync 3 E bytes r0 w1 = Some (Rejected UnhandledSuspension, r', w1)))"
proof (intro conjI impI)
  show "render E (Suspense None kids) r w
     = Inr ('''', r\<lparr>stack := Frame TNull kids 0 '''' None # stack r\<rparr>, w)"
    by (simp add: render_def pushFrame_def plainFrame_def)
  show "render E (Suspense None kids) r w = render E (Fragment kids) r w"
    by (simp add: render_def)
  show "render E (Suspense (Some fbk) kids) r w
     = Inr (''<!--$-->'',
            r\<lparr>stack := Frame TSuspense kids 0 ''<!--/$-->'' (Some (Frame TNull fbk 0 ''<!--/$-->'' None)) # stack r,
              suspenseDepth := suspenseDepth r + 1\<rparr>, w)"
    by (simp add: render_def pushFrame_def Let_def)
next
  assume a: "newRenderer (Suspense None (Suspending p m # post)) static w0 = (r0, w1)
        \<and> p \<notin> set (settled w0) \<and> 0 < bytes"
  from no_fallback_unhandled[of p m post static w0 r0 w1 bytes E] a obtain r' where
    r: "read 2 E bytes r0 w1 = Some (Inl UnhandledSuspension, r', w1)" and d: "suspenseDepth r' = 0"
    by blast
  from read_mono[OF r, of k] d
  show "\<exists>r'. read (2 + k) E bytes r0 w1 = Some (Inl UnhandledSuspension, r', w1) \<and> suspenseDepth r' = 0"
    by blast
next
  assume a: "newRenderer (Suspense (Some [Text f]) [Suspense None (Suspending p m # post)]) static w0 = (r0, w1)
        \<and> p \<notin> set (settled w0)"
  from no_fallback_outer[of f p m post static w0 r0 w1 E] a obtain r' w' where
    "read 9 E \<infinity> r0 w1
       = Some (Inr (Some (''<!--$!-->'' @ separatedTexts E static False [f] @ ''<!--/$-->'')), r', w')"
    by blast
  from read_mono[OF this, of k]
  show "\<exists>r' w'. read (9 + k) E \<infinity> r0 w1
          = Some (Inr (Some (''<!--$!-->'' @ separatedTexts E static False [f] @ ''<!--/$-->'')), r', w')"
    by blast
next
  assume a: "newRendererAsync (Suspense None (Suspending p m # post)) static None w0 = (r0, w1)
        \<and> p \<notin> set (settled w0) \<and> 0 < bytes"
  from no_fallback_async[of p m post static w0 r0 w1 bytes E] a
  show "\<exists>r'. readAsync 3 E bytes r0 w1 = Some (Rejected UnhandledSuspension, r', w1)"
    by blast
qed

theorem suspense_without_fallback_witness:
  "(\<exists>r'. read 2 sampleEncoder \<infinity>
            (fst (newRenderer (Suspense None [Suspending 0 (Text ''x'')]) False (sampleWorld [])))
            (snd (newRenderer (Suspense None [Suspending 0 (Text ''x'')]) False (sampleWorld [])))
          = Some (Inl UnhandledSuspension, r',
                  snd (newRenderer (Suspense None [Suspending 0 (Text ''x'')]) False (sampleWorld [])))
         \<and> suspenseDepth r' = 0)
   \<and> (\<exists>r' w'. read 9 sampleEncoder \<infinity>
            (fst (newRenderer (Suspense (Some [Text ''f'']) [Suspense None [Suspending 0 (Text ''x'')]])
                    False (sampleWorld [])))
            (snd (newRenderer (Suspense (Some [Text ''f'']) [Suspense None [Suspending 0 (Text ''x'')]])
                    False (sampleWorld [])))
          = Some (Inr (Some ''<!--$!-->f<!--/$-->''), r', w'))
   \<and> (\<exists>r'. readAsync 3 sampleEncoder \<infinity>
            (fst (newRendererAsync (Suspense None [Suspending 0 (Text ''x'')]) False None (sampleWorld [])))
            (snd (newRendererAsync (Suspense None [Suspending 0 (Text ''x'')]) False None (sampleWorld [])))
          = Some (Rejected UnhandledSuspension, r',
                  snd (newRendererAsync (Suspense None [Suspending 0 (Text ''x'')]) False None (sampleWorld []))))"
proof -
  have s: "0 \<notin> set (settled (sampleWorld []))" "(0::enat) < \<infinity>"
    by (simp_all add: sampleWorld_def)
  note t = suspense_without_fallback[where p = 0 and m = "Text ''x''" and post = "[]" and static = False
      and ?w0.0 = "sampleWorld []" and E = sampleEncoder and k = 0 and bytes = \<infinity>]
  from t[where ?r0.0 = "fst (newRenderer (Suspense None [Suspending 0 (Text ''x'')]) False (sampleWorld []))"
      and ?w1.0 = "snd (newRenderer (Suspense None [Suspending 0 (Text ''x'')]) False (sampleWorld []))"] s
  have 1: "\<exists>r'. read 2 sampleEncoder \<infinity>
            (fst (newRenderer (Suspense None [Suspending 0 (Text ''x'')]) False (sampleWorld [])))
            (snd (newRenderer (Suspense None [Suspending 0 (Text ''x'')]) False (sampleWorld [])))
          = Some (Inl UnhandledSuspension, r',
                  snd (newRenderer (Suspense None [Suspending 0 (Text ''x'')]) False (sampleWorld [])))
         \<and> suspenseDepth r' = 0"
    by simp
  from t[where f = "''f''"
      and ?r0.0 = "fst (newRenderer (Suspense (Some [Text ''f'']) [Suspense None [Suspending 0 (Text ''x'')]])
                    False (sampleWorld []))"
      and ?w1.0 = "snd (newRenderer (Suspense (Some [Text ''f'']) [Suspense None [Suspending 0 (Text ''x'')]])
                    False (sampleWorld []))"] s
  have 2: "\<exists>r' w'. read 9 sampleEncoder \<infinity>
            (fst (newRenderer (Suspense (Some [Text ''f'']) [Suspense None [Suspending 0 (Text ''x'')]])
                    False (sampleWorld [])))
            (snd (newRenderer (Suspense (Some [Text ''f'']) [Suspense None [Suspending 0 (Text ''x'')]])
                    False (sampleWorld [])))
          = Some (Inr (Some ''<!--$!-->f<!--/$-->''), r', w')"
    by (simp add: sampleEncoder_def)
  from t[where ?r0.0 = "fst (newRendererAsync (Suspense None [Suspending 0 (Text ''x'')]) False None (sampleWorld []))"
      and ?w1.0 = "snd (newRendererAsync (Suspense None [Suspending 0 (Text ''x'')]) False None (sampleWorld []))"] s
  have 3: "\<exists>r'. readAsync 3 sampleEncoder \<infinity>
            (fst (newRendererAsync (Suspense None [Suspending 0 (Text ''x'')]) False None (sampleWorld [])))
            (snd (newRendererAsync (Suspense None [Suspending 0 (Text ''x'')]) False None (sampleWorld [])))
          = Some (Rejected UnhandledSuspension, r',
                  snd (newRendererAsync (Suspense None [Suspending 0 (Text ''x'')]) False None (sampleWorld [])))"
    by simp
  from 1 2 3 show ?thesis by blast
qed

subsection \<open>The order of the output of siblings in the asynchronous reader\<close>





lemma asyncExit_boundary:
  assumes "ftype frame = TSuspense" and "suspenseDepth r = Suc d" and "length (outQueue r) = Suc (Suc d)"
  shows "asyncExit frame rest r w
         = Inr (r\<lparr>previousWasTextNode := (if footer frame \<noteq> '''' then False else previousWasTextNode r),
                  stack := rest, suspenseDepth := d,
                  outQueue := (butlast (outQueue r))[d := butlast (outQueue r) ! d
                                 @ [Boundary (last (outQueue r)) (footer frame)]]\<rparr>, w)"
proof -
  from assms(3) obtain q0 qs where q: "outQueue r = q0 # qs" by (cases "outQueue r") auto
  show ?thesis using assms q
    by (auto simp: asyncExit_def pushToOutQueue_def Let_def)
qed


lemma pushToOutQueue_string:
  assumes "suspenseDepth r < length (outQueue r)" and "outQueue r ! suspenseDepth r = ys @ [y]"
  shows "pushToOutQueue (Str s) r
         = Inr (r\<lparr>outQueue := (outQueue r)[suspenseDepth r :=
                   (case y of Str t \<Rightarrow> ys @ [Str (t @ s)] | _ \<Rightarrow> ys @ [y, Str s])]\<rparr>)"
  using assms by (cases ys; cases y) (simp_all add: pushToOutQueue_def Let_def)







subsection \<open>The traversal comes to an end\<close>

lemma steps_add:
  "steps (j + k) E r w =
     (case steps j E r w of
        Inl e \<Rightarrow> Inl e
      | Inr (s, r', w') \<Rightarrow>
          (case steps k E r' w' of
             Inl e \<Rightarrow> Inl e
           | Inr (t, r'', w'') \<Rightarrow> Inr (s @ t, r'', w'')))"
  by (induction j arbitrary: r w) (auto split: sum.splits prod.splits)

lemma reaches_refl: "stack r = st \<Longrightarrow> reaches E r w st"
  unfolding reaches_def by (rule exI[of _ 0]) simp

lemma reaches_err: "tstep E r w = Inl e \<Longrightarrow> reaches E r w st"
  unfolding reaches_def by (rule exI[of _ "Suc 0"]) simp

lemma reaches_step:
  assumes "tstep E r w = Inr (s, r', w')" and "reaches E r' w' st"
  shows "reaches E r w st"
proof -
  from assms(2) obtain k where
    k: "(\<exists>e. steps k E r' w' = Inl e) \<or> (\<exists>t r'' w''. steps k E r' w' = Inr (t, r'', w'') \<and> stack r'' = st)"
    unfolding reaches_def by blast
  show ?thesis unfolding reaches_def
    using k assms(1) by (intro exI[of _ "Suc k"]) auto
qed

lemma reaches_trans:
  assumes "reaches E r w st1" and "\<And>r' w'. stack r' = st1 \<Longrightarrow> reaches E r' w' st2"
  shows "reaches E r w st2"
proof -
  from assms(1) obtain j where
    j: "(\<exists>e. steps j E r w = Inl e) \<or> (\<exists>s r' w'. steps j E r w = Inr (s, r', w') \<and> stack r' = st1)"
    unfolding reaches_def by blast
  then show ?thesis
  proof
    assume "\<exists>e. steps j E r w = Inl e"
    then show ?thesis unfolding reaches_def by blast
  next
    assume "\<exists>s r' w'. steps j E r w = Inr (s, r', w') \<and> stack r' = st1"
    then obtain s r' w' where a: "steps j E r w = Inr (s, r', w')" "stack r' = st1" by blast
    from assms(2)[OF a(2), of w'] obtain k where
      k: "(\<exists>e. steps k E r' w' = Inl e) \<or> (\<exists>t r'' w''. steps k E r' w' = Inr (t, r'', w'') \<and> stack r'' = st2)"
      unfolding reaches_def by blast
    show ?thesis unfolding reaches_def
      using a(1) k by (intro exI[of _ "j + k"]) (auto simp: steps_add)
  qed
qed

lemma popProvider_stack: "popProvider r w = Inr (r', w') \<Longrightarrow> stack r' = stack r"
  by (auto simp: popProvider_def Let_def split: option.splits)

lemma frame_reaches:
  assumes "\<forall>x\<in>set cs. fin x"
  shows "stack r = Frame ty cs i ft fb # rest \<Longrightarrow> reaches E r w rest"
proof (induction "length cs - i" arbitrary: i r w)
  case 0
  then have ge: "length cs \<le> i" by simp
  show ?case
  proof (cases "tstep E r w")
    case (Inl e)
    then show ?thesis by (rule reaches_err)
  next
    case (Inr x)
    obtain s r' w' where x: "x = (s, r', w')" by (cases x)
    have "stack r' = rest"
      using Inr x 0(2) ge
      by (auto simp: tstep_def Let_def popProvider_stack split: ftype.splits sum.splits prod.splits)
    then show ?thesis using Inr x reaches_step reaches_refl by blast
  qed
next
  case (Suc m)
  then have lt: "i < length cs" by simp
  let ?r1 = "r\<lparr>stack := Frame ty cs (i + 1) ft fb # rest\<rparr>"
  show ?case
  proof (cases "tstep E r w")
    case (Inl e)
    then show ?thesis by (rule reaches_err)
  next
    case (Inr x)
    obtain s r' w' where x: "x = (s, r', w')" by (cases x)
    have rr: "render E (cs ! i) ?r1 w = Inr (s, r', w')"
      using Inr x Suc(3) lt
      by (auto simp: tstep_def advance_def split: sum.splits thrown.splits)
    have "fin (cs ! i)" using assms lt by simp
    then have a: "reaches E r' w' (stack ?r1)" using rr unfolding fin_def by blast
    have b: "reaches E r'' w'' rest" if "stack r'' = stack ?r1" for r'' w''
      using Suc(1)[of "i + 1" r'' w''] Suc(2) that by simp
    from reaches_trans[OF a b] have "reaches E r' w' rest" by simp
    then show ?thesis using Inr x reaches_step by blast
  qed
qed

lemma fin_Text: "fin (Text s)"
  unfolding fin_def by (auto simp: render_def intro: reaches_refl split: if_splits)

lemma fin_of_finR:
  assumes "\<And>S nx. resolve S t = Inr nx \<Longrightarrow> finR nx" and "\<And>s. t \<noteq> Text s"
  shows "fin t"
  unfolding fin_def
proof (intro allI impI)
  fix E r w s r1 w1
  assume a: "render E t r w = Inr (s, r1, w1)"
  from a render_nontext[OF assms(2), of E r w] obtain nx where
    "resolve (settled w) t = Inr nx" "renderResolved E nx r w = Inr (s, r1, w1)"
    by (auto split: sum.splits)
  then show "reaches E r1 w1 (stack r)" using assms(1) unfolding finR_def by blast
qed

lemma pushProvider_stack: "pushProvider c v r w = (r', w') \<Longrightarrow> stack r' = stack r"
  by (auto simp: pushProvider_def Let_def)

lemma finR_kids:
  assumes "\<forall>x\<in>set kids. fin x"
  shows "finR (Element tag attrs inner kids)" "finR (Fragment kids)" "finR (Suspense fbk kids)"
    "finR (Provider c v kids)"
proof -
  show "finR (Element tag attrs inner kids)"
    unfolding finR_def
  proof (intro allI impI)
    fix E r w s r1 w1
    assume a: "renderResolved E (Element tag attrs inner kids) r w = Inr (s, r1, w1)"
    then have "stack r1 = Frame (TTag (toLowerCase tag)) (case inner of None \<Rightarrow> kids | Some m \<Rightarrow> []) 0
                 (if omittedCloseTags E (toLowerCase tag) then '''' else ''</'' @ tag @ ''>'') None # stack r"
      by (auto simp: renderDOM_def Let_def pushFrame_def split: if_splits sum.splits)
    moreover have "\<forall>x\<in>set (case inner of None \<Rightarrow> kids | Some m \<Rightarrow> []). fin x"
      using assms by (cases inner) auto
    ultimately show "reaches E r1 w1 (stack r)" using frame_reaches by blast
  qed
  show "finR (Fragment kids)"
    unfolding finR_def
    using frame_reaches[OF assms] by (auto simp: pushFrame_def plainFrame_def)
  show "finR (Suspense fbk kids)"
    unfolding finR_def
    using frame_reaches[OF assms] by (cases fbk) (auto simp: pushFrame_def plainFrame_def Let_def)
  show "finR (Provider c v kids)"
    unfolding finR_def
    using frame_reaches[OF assms]
    by (auto simp: pushFrame_def Let_def split: prod.splits dest: pushProvider_stack)
qed

lemma fin_all_aux: "fin t \<and> (\<forall>S nx. resolve S t = Inr nx \<longrightarrow> finR nx)"
proof (induction t)
  case (Text s)
  have "finR (Text s)"
    unfolding finR_def
    using frame_reaches[of "[Text s]"] fin_Text by (auto simp: pushFrame_def plainFrame_def)
  then show ?case using fin_Text by simp
next
  case Null
  have r: "finR Null" unfolding finR_def by (auto intro: reaches_refl)
  then have "fin Null" by (intro fin_of_finR) auto
  then show ?case using r by simp
next
  case (Element tag attrs inner kids)
  then have "\<forall>x\<in>set kids. fin x" by blast
  from finR_kids(1)[OF this] have r: "finR (Element tag attrs inner kids)" .
  then have "fin (Element tag attrs inner kids)" by (intro fin_of_finR) auto
  then show ?case using r by simp
next
  case (Fragment kids)
  then have "\<forall>x\<in>set kids. fin x" by blast
  from finR_kids(2)[OF this] have r: "finR (Fragment kids)" .
  then have "fin (Fragment kids)" by (intro fin_of_finR) auto
  then show ?case using r by simp
next
  case (Suspense fbk kids)
  then have "\<forall>x\<in>set kids. fin x" by blast
  from finR_kids(3)[OF this] have r: "finR (Suspense fbk kids)" .
  then have "fin (Suspense fbk kids)" by (intro fin_of_finR) auto
  then show ?case using r by simp
next
  case (Provider c v kids)
  then have "\<forall>x\<in>set kids. fin x" by blast
  from finR_kids(4)[OF this] have r: "finR (Provider c v kids)" .
  then have "fin (Provider c v kids)" by (intro fin_of_finR) auto
  then show ?case using r by simp
next
  case (Consumer c f)
  have k: "\<forall>x\<in>set (f v). fin x" for v using Consumer by blast
  have r: "finR (Consumer c f)"
    unfolding finR_def using frame_reaches[OF k] by (auto simp: pushFrame_def)
  then have "fin (Consumer c f)" by (intro fin_of_finR) auto
  then show ?case using r by simp
next
  case (Component n)
  then have r: "\<forall>S nx. resolve S (Component n) = Inr nx \<longrightarrow> finR nx" by simp
  then have "fin (Component n)" by (intro fin_of_finR) auto
  then show ?case using r by simp
next
  case (Suspending p n)
  then have r: "\<forall>S nx. resolve S (Suspending p n) = Inr nx \<longrightarrow> finR nx"
    by (auto split: if_splits)
  then have "fin (Suspending p n)" by (intro fin_of_finR) auto
  then show ?case using r by simp
next
  case Throwing
  have "fin Throwing" by (intro fin_of_finR) auto
  then show ?case by simp
qed

lemma fresh_reaches:
  assumes "stack r = [Frame TNull cs 0 '''' None]"
  shows "reaches E r w []"
  using frame_reaches[OF _ assms] fin_all_aux by blast

subsection \<open>Traversing a tree without pending nodes\<close>

lemma resolve_noPending:
  "noPending t \<Longrightarrow> resolve S t \<noteq> Inl (Thenable p) \<and> (\<forall>nx. resolve S t = Inr nx \<longrightarrow> noPending nx)"
  by (induction t) auto

lemma renderResolved_not_thenable: "renderResolved E nx r w \<noteq> Inl (Thenable p)"
  by (cases "(E, nx, r, w)" rule: renderResolved.cases)
     (auto simp: renderDOM_def Let_def split: sum.splits prod.splits if_splits)

lemma render_noPending: "noPending t \<Longrightarrow> render E t r w \<noteq> Inl (Thenable p)"
proof (cases "\<exists>s. t = Text s")
  case True
  then obtain s where "t = Text s" by blast
  then show ?thesis using render_text_Inr[of E s r w] by auto
next
  case False
  assume np: "noPending t"
  from False have "\<And>s. t \<noteq> Text s" by blast
  from render_nontext[OF this, of E r w] resolve_noPending[OF np, of "settled w" p]
  show ?thesis using renderResolved_not_thenable by (auto split: sum.splits)
qed

lemma isSuspenseFrame_simps [simp]:
  "isSuspenseFrame (Frame ty cs i ft fb) = (ty = TSuspense)"
  "isSuspenseFrame (advance f) = isSuspenseFrame f"
  by (simp_all add: isSuspenseFrame_def advance_def)

lemma renderResolved_travInv:
  assumes "travInv r" and "noPending nx" and "renderResolved E nx r w = Inr (s, r', w')"
  shows "travInv r'"
  using assms
  by (cases "(E, nx, r, w)" rule: renderResolved.cases)
     (auto simp: travInv_def renderDOM_def Let_def pushFrame_def plainFrame_def pushProvider_def
        split: sum.splits prod.splits if_splits option.splits)

lemma render_travInv:
  assumes "travInv r" and "noPending t" and "render E t r w = Inr (s, r', w')"
  shows "travInv r'"
proof (cases "\<exists>u. t = Text u")
  case True
  then show ?thesis using assms by (auto simp: render_def travInv_def split: if_splits)
next
  case False
  then have "\<And>u. t \<noteq> Text u" by blast
  from render_nontext[OF this, of E r w] assms(3) obtain nx where
    n: "resolve (settled w) t = Inr nx" "renderResolved E nx r w = Inr (s, r', w')"
    by (auto split: sum.splits)
  from resolve_noPending[OF assms(2), of "settled w"] n(1) have "noPending nx" by blast
  from renderResolved_travInv[OF assms(1) this n(2)] show ?thesis .
qed

lemma tstep_travInv:
  assumes "travInv r" and "tstep E r w = Inr (s, r', w')"
  shows "travInv r'"
proof (cases "stack r")
  case Nil
  then show ?thesis using assms by (simp add: tstep_def)
next
  case (Cons frame rest)
  show ?thesis
  proof (cases "length (children frame) \<le> childIndex frame")
    case True
    then show ?thesis using assms Cons
      by (auto simp: tstep_def Let_def travInv_def popProvider_def isSuspenseFrame_def
          split: ftype.splits sum.splits prod.splits option.splits)
  next
    case False
    let ?r1 = "r\<lparr>stack := advance frame # rest\<rparr>"
    have i: "travInv ?r1" using assms(1) Cons by (simp add: travInv_def advance_def isSuspenseFrame_def)
    have "list_all noPending (children frame)" using assms(1) Cons by (simp add: travInv_def)
    then have np: "noPending (children frame ! childIndex frame)"
      using False by (simp add: list_all_length)
    have "render E (children frame ! childIndex frame) ?r1 w = Inr (s, r', w')"
      using assms(2) Cons False by (auto simp: tstep_def split: sum.splits thrown.splits)
    from render_travInv[OF i np this] show ?thesis .
  qed
qed

subsection \<open>The synchronous reader hands out what the traversal hands out\<close>

lemma concat_upd_last:
  "length bufs = Suc d \<Longrightarrow> concat (bufs[d := bufs ! d @ s]) = concat bufs @ s"
proof -
  assume l: "length bufs = Suc d"
  then obtain bs b where b: "bufs = bs @ [b]" by (cases bufs rule: rev_cases) auto
  then have "d = length bs" using l by simp
  then show ?thesis using b by simp
qed

lemma renderResolved_same:
  assumes "renderResolved E nx r w = Inr (s, r', w')"
  shows "exhausted r' = exhausted r \<and> threadID r' = threadID r \<and> makeStaticMarkup r' = makeStaticMarkup r
       \<and> outQueue r' = outQueue r \<and> isChildRenderer r' = isChildRenderer r"
  using assms
  by (cases "(E, nx, r, w)" rule: renderResolved.cases)
     (auto simp: renderDOM_def Let_def pushFrame_def plainFrame_def pushProvider_def
        split: sum.splits prod.splits if_splits option.splits)

lemma render_same:
  assumes "render E t r w = Inr (s, r', w')"
  shows "exhausted r' = exhausted r \<and> threadID r' = threadID r \<and> makeStaticMarkup r' = makeStaticMarkup r
       \<and> outQueue r' = outQueue r \<and> isChildRenderer r' = isChildRenderer r"
  using render_Inr_cases[OF assms] assms renderResolved_same
  by (auto simp: render_def split: if_splits)

lemma tstep_same:
  assumes "tstep E r w = Inr (s, r', w')"
  shows "exhausted r' = exhausted r \<and> threadID r' = threadID r \<and> makeStaticMarkup r' = makeStaticMarkup r
       \<and> outQueue r' = outQueue r \<and> isChildRenderer r' = isChildRenderer r"
proof (cases "stack r")
  case Nil
  then show ?thesis using assms by (simp add: tstep_def)
next
  case (Cons frame rest)
  show ?thesis
  proof (cases "length (children frame) \<le> childIndex frame")
    case True
    then show ?thesis using assms Cons
      by (auto simp: tstep_def Let_def popProvider_def
          split: ftype.splits sum.splits prod.splits option.splits)
  next
    case False
    then have "render E (children frame ! childIndex frame) (r\<lparr>stack := advance frame # rest\<rparr>) w
               = Inr (s, r', w')"
      using assms Cons by (auto simp: tstep_def split: sum.splits thrown.splits)
    from render_same[OF this] show ?thesis by simp
  qed
qed

lemma steps_empty: "stack r = [] \<Longrightarrow> steps k E r w = Inr ('''', r, w)"
  by (induction k) (simp_all add: tstep_def)

lemma sync_exit:
  assumes "travInv r" and "stack r = frame # rest" and "length bufs = Suc (suspenseDepth r)"
    and "length (children frame) \<le> childIndex frame"
  shows "case tstep E r w of
           Inl e \<Rightarrow> (\<exists>r' w'. readExit frame rest r w (map Some bufs) False = Inl (e, r', w'))
         | Inr (s, r', w') \<Rightarrow>
             (\<exists>bufs'. readExit frame rest r w (map Some bufs) False = Inr (r', w', map Some bufs', False)
                \<and> concat bufs' = concat bufs @ s \<and> length bufs' = Suc (suspenseDepth r')
                \<and> (0 < suspenseDepth r' \<longrightarrow> bufs' ! 0 = bufs ! 0))"
proof (cases "ftype frame")
  case TSuspense
  then have "0 < suspenseDepth r" using assms(1,2) by (simp add: travInv_def isSuspenseFrame_def)
  then obtain d where d: "suspenseDepth r = Suc d" by (cases "suspenseDepth r") auto
  obtain bs b where b: "bufs = bs @ [b]" using assms(3) by (cases bufs rule: rev_cases) auto
  have lb: "length bs = Suc d" using b assms(3) d by simp
  have ne: "bufs \<noteq> []" using b by simp
  let ?bufs' = "bs[d := bs ! d @ b @ footer frame]"
  have pop: "js_pop (map Some bufs) = (Some b, map Some bs)"
    using js_pop_map_Some[OF ne] b by simp
  have "readExit frame rest r w (map Some bufs) False
        = Inr (r\<lparr>previousWasTextNode := (if footer frame \<noteq> '''' then False else previousWasTextNode r),
                 stack := rest, suspenseDepth := d\<rparr>, w, map Some ?bufs', False)"
    using TSuspense d lb pop
    by (simp add: readExit_def Let_def js_append_map_Some js_str_def)
  moreover have "concat ?bufs' = concat bufs @ footer frame"
    using concat_upd_last[OF lb, of "b @ footer frame"] b by simp
  moreover have "0 < d \<longrightarrow> ?bufs' ! 0 = bufs ! 0" using b lb by (simp add: nth_append)
  ultimately show ?thesis using assms(2,4) TSuspense d lb
    by (simp add: tstep_def Let_def)
next
  case (TProvider c)
  have len: "suspenseDepth r < length bufs" using assms(3) by simp
  show ?thesis
    using assms(2,3,4) TProvider concat_upd_last[OF assms(3), of "footer frame"]
    by (auto simp: tstep_def readExit_def Let_def popProvider_def js_append_map_Some
        split: option.splits)
next
  case TNull
  then show ?thesis
    using assms(2,3,4) concat_upd_last[OF assms(3), of "footer frame"]
    by (auto simp: tstep_def Let_def readExit_plain)
next
  case (TTag t)
  then show ?thesis
    using assms(2,3,4) concat_upd_last[OF assms(3), of "footer frame"]
    by (auto simp: tstep_def Let_def readExit_plain)
next
  case TConsumer
  then show ?thesis
    using assms(2,3,4) concat_upd_last[OF assms(3), of "footer frame"]
    by (auto simp: tstep_def Let_def readExit_plain)
qed

lemma renderResolved_depth:
  assumes "renderResolved E nx r w = Inr (s, r', w')"
  shows "suspenseDepth r' = suspenseDepth r \<or> suspenseDepth r' = Suc (suspenseDepth r)"
  using assms
  by (cases "(E, nx, r, w)" rule: renderResolved.cases)
     (auto simp: renderDOM_def Let_def pushFrame_def plainFrame_def pushProvider_def
        split: sum.splits prod.splits if_splits option.splits)

lemma render_depth:
  assumes "render E t r w = Inr (s, r', w')"
  shows "suspenseDepth r' = suspenseDepth r \<or> suspenseDepth r' = Suc (suspenseDepth r)"
proof (cases "\<exists>u. t = Text u")
  case True
  then show ?thesis using assms by (auto simp: render_def split: if_splits)
next
  case False
  with render_Inr_cases[OF assms] obtain n where "renderResolved E n r w = Inr (s, r', w')" by blast
  from renderResolved_depth[OF this] show ?thesis .
qed

lemma sync_child:
  assumes "travInv r" and "stack r = frame # rest" and "length bufs = Suc (suspenseDepth r)"
    and "childIndex frame < length (children frame)"
  shows "case tstep E r w of
           Inl e \<Rightarrow> (\<exists>r' w'. readChild E frame rest r w (map Some bufs) = Inl (e, r', w'))
         | Inr (s, r', w') \<Rightarrow>
             (\<exists>bufs'. readChild E frame rest r w (map Some bufs) = Inr (r', w', map Some bufs', False)
                \<and> concat bufs' = concat bufs @ s \<and> length bufs' = Suc (suspenseDepth r')
                \<and> (0 < suspenseDepth r' \<longrightarrow> bufs' ! 0 = bufs ! 0))"
proof -
  let ?child = "children frame ! childIndex frame"
  let ?r1 = "r\<lparr>stack := advance frame # rest\<rparr>"
  have "list_all noPending (children frame)" using assms(1,2) by (simp add: travInv_def)
  then have np: "noPending ?child" using assms(4) by (simp add: list_all_length)
  show ?thesis
  proof (cases "render E ?child ?r1 w")
    case (Inl t)
    then obtain e where "t = Failure e" using render_noPending[OF np, of E ?r1 w] by (cases t) auto
    then show ?thesis using Inl assms(2,4) by (simp add: tstep_def readChild_def Let_def)
  next
    case (Inr y)
    obtain s r2 w2 where y: "y = (s, r2, w2)" by (cases y)
    from render_depth[OF Inr[unfolded y]] have
      d: "suspenseDepth r2 = suspenseDepth r \<or> suspenseDepth r2 = Suc (suspenseDepth r)" by simp
    have ts: "tstep E r w = Inr (s, r2, w2)" using Inr y assms(2,4) by (simp add: tstep_def)
    have rc: "readChild E frame rest r w (map Some bufs)
              = Inr (r2, w2, pushOut (map Some bufs) (suspenseDepth r2) s, False)"
      using Inr y by (simp add: readChild_def Let_def)
    from d show ?thesis
    proof
      assume e: "suspenseDepth r2 = suspenseDepth r"
      let ?bufs' = "bufs[suspenseDepth r := bufs ! suspenseDepth r @ s]"
      have "pushOut (map Some bufs) (suspenseDepth r2) s = map Some ?bufs'"
        using e assms(3) by (simp add: pushOut_map_Some)
      moreover have "concat ?bufs' = concat bufs @ s" using concat_upd_last[OF assms(3)] .
      ultimately show ?thesis using ts rc e assms(3) by auto
    next
      assume e: "suspenseDepth r2 = Suc (suspenseDepth r)"
      then have "suspenseDepth r2 = length bufs" using assms(3) by simp
      then have "pushOut (map Some bufs) (suspenseDepth r2) s = map Some (bufs @ [s])"
        using pushOut_map_Some_new[of bufs s] by simp
      then have "\<exists>bufs'. readChild E frame rest r w (map Some bufs) = Inr (r2, w2, map Some bufs', False)
                \<and> concat bufs' = concat bufs @ s \<and> length bufs' = Suc (suspenseDepth r2)
                \<and> (0 < suspenseDepth r2 \<longrightarrow> bufs' ! 0 = bufs ! 0)"
        using rc e assms(3) by (intro exI[of _ "bufs @ [s]"]) (simp add: nth_append del: map_append)
      then show ?thesis using ts by simp
    qed
  qed
qed

lemma readUntilNull_unfold:
  "\<not> exhausted r \<Longrightarrow> readUntilNull (Suc n) E b r w = finishRead n n E b r w [Some '''']"
  by (simp add: read_def finishRead_def split: option.splits sum.splits prod.splits)

lemma readUntilNull_exhausted: "exhausted r \<Longrightarrow> readUntilNull (Suc n) E b r w = Some (Inr '''')"
  by (simp add: read_def)

lemma sync_finish_empty:
  assumes "travInv r" and "stack r = []" and "length bufs = Suc (suspenseDepth r)"
    and "enat (length (bufs ! 0)) < b" and "0 < n1" and "0 < n2"
  shows "finishRead n1 n2 E b r w (map Some bufs) = Some (Inr (concat bufs))"
proof -
  have d: "suspenseDepth r = 0" using assms(1,2) by (simp add: travInv_def)
  then obtain b0 where b0: "bufs = [b0]" using assms(3) by (cases bufs) auto
  obtain m1 where m1: "n1 = Suc m1" using assms(5) by (cases n1) auto
  obtain m2 where m2: "n2 = Suc m2" using assms(6) by (cases n2) auto
  have "readLoop n1 E b r w (map Some bufs) False
        = Some (Inr (bufs ! 0), r\<lparr>exhausted := True\<rparr>, freeThreadID (threadID r) w)"
    unfolding m1 by (rule readLoop_exhaust) (use assms b0 in auto)
  then show ?thesis using b0 m2 by (simp add: finishRead_def read_def)
qed

lemma sync_step:
  assumes "travInv r" and "stack r = frame # rest" and "length bufs = Suc (suspenseDepth r)"
  shows "case tstep E r w of
           Inl e \<Rightarrow>
             (\<exists>r' w'. (if False \<or> length (children frame) \<le> childIndex frame
                        then readExit frame rest r w (map Some bufs) False
                        else readChild E frame rest r w (map Some bufs)) = Inl (e, r', w'))
         | Inr (s, r', w') \<Rightarrow>
             (\<exists>bufs'. (if False \<or> length (children frame) \<le> childIndex frame
                        then readExit frame rest r w (map Some bufs) False
                        else readChild E frame rest r w (map Some bufs))
                         = Inr (r', w', map Some bufs', False)
                \<and> concat bufs' = concat bufs @ s \<and> length bufs' = Suc (suspenseDepth r')
                \<and> (0 < suspenseDepth r' \<longrightarrow> bufs' ! 0 = bufs ! 0))"
proof (cases "length (children frame) \<le> childIndex frame")
  case True
  then show ?thesis using sync_exit[OF assms True, where E = E and w = w] by simp
next
  case False
  then have "childIndex frame < length (children frame)" by simp
  from sync_child[OF assms this, where E = E and w = w] show ?thesis using False by simp
qed

lemma sync_total_aux:
  assumes pos: "0 < b"
  shows "\<lbrakk>travInv r; \<not> exhausted r; length bufs = Suc (suspenseDepth r); enat (length (bufs ! 0)) < b;
          steps k E r w = X; (case X of Inl e \<Rightarrow> True | Inr (s, rf, wz) \<Rightarrow> stack rf = []);
          k < n1; 2 * k + 2 \<le> n2\<rbrakk>
     \<Longrightarrow> finishRead n1 n2 E b r w (map Some bufs)
         = Some (case X of Inl e \<Rightarrow> Inl e | Inr (s, rf, wz) \<Rightarrow> Inr (concat bufs @ s))"
proof (induction k arbitrary: r w bufs n1 n2 X)
  case 0
  then have "X = Inr ('''', r, w)" "stack r = []" by auto
  then show ?case using sync_finish_empty[OF 0(1) _ 0(3,4), where ?n1.0 = n1 and ?n2.0 = n2 and E = E and w = w] 0(7,8) by simp
next
  case (Suc k)
  show ?case
  proof (cases "stack r")
    case Nil
    from steps_empty[OF Nil, of "Suc k" E w] Suc.prems(5) have "X = Inr ('''', r, w)" by simp
    then show ?thesis
      using sync_finish_empty[OF Suc.prems(1) Nil Suc.prems(3,4), where ?n1.0 = n1 and ?n2.0 = n2 and E = E and w = w] Suc.prems(7,8) by simp
  next
    case (Cons frame rest)
    obtain m1 where m1: "n1 = Suc m1" and km1: "k < m1" using Suc.prems(7) by (cases n1) auto
    have ne: "bufs \<noteq> []" using Suc.prems(3) by auto
    let ?step = "if False \<or> length (children frame) \<le> childIndex frame
                 then readExit frame rest r w (map Some bufs) False
                 else readChild E frame rest r w (map Some bufs)"
    note sim = sync_step[OF Suc.prems(1) Cons Suc.prems(3), where E = E and w = w]
    show ?thesis
    proof (cases "tstep E r w")
      case (Inl e)
      then have X: "X = Inl e" using Suc.prems(5) by simp
      from sim Inl obtain r' w' where "?step = Inl (e, r', w')" by auto
      then have "readLoop (Suc m1) E b r w (map Some bufs) False = Some (Inl e, r', w')"
        using Cons Suc.prems(4) ne by (simp add: readLoop.simps js_get_map_Some0)
      then show ?thesis using X m1 by (simp add: finishRead_def)
    next
      case (Inr y)
      obtain s r' w' where y: "y = (s, r', w')" by (cases y)
      from sim Inr y obtain bufs' where
        st: "?step = Inr (r', w', map Some bufs', False)" and
        cc: "concat bufs' = concat bufs @ s" and
        ln: "length bufs' = Suc (suspenseDepth r')" and
        hd: "0 < suspenseDepth r' \<longrightarrow> bufs' ! 0 = bufs ! 0"
        by auto
      have loop: "readLoop (Suc m1) E b r w (map Some bufs) False
                  = readLoop m1 E b r' w' (map Some bufs') False"
        using Cons Suc.prems(4) ne st by (simp add: readLoop.simps js_get_map_Some0)
      have inv': "travInv r'" using tstep_travInv[OF Suc.prems(1) Inr[unfolded y]] .
      have ex': "\<not> exhausted r'" using tstep_same[OF Inr[unfolded y]] Suc.prems(2) by simp
      define X' where "X' = steps k E r' w'"
      have X: "X = (case X' of Inl e \<Rightarrow> Inl e | Inr (t, rf, wz) \<Rightarrow> Inr (s @ t, rf, wz))"
        using Suc.prems(5) Inr y by (simp add: X'_def)
      have fin': "case X' of Inl e \<Rightarrow> True | Inr (t, rf, wz) \<Rightarrow> stack rf = []"
        using Suc.prems(6) X by (auto split: sum.splits)
      show ?thesis
      proof (cases "enat (length (bufs' ! 0)) < b")
        case True
        have n2: "2 * k + 2 \<le> n2" using Suc.prems(8) by simp
        from Suc.IH[OF inv' ex' ln True X'_def[symmetric] fin' km1 n2]
        have "finishRead m1 n2 E b r' w' (map Some bufs')
              = Some (case X' of Inl e \<Rightarrow> Inl e | Inr (t, rf, wz) \<Rightarrow> Inr (concat bufs' @ t))" .
        moreover have "finishRead n1 n2 E b r w (map Some bufs) = finishRead m1 n2 E b r' w' (map Some bufs')"
          using loop m1 by (simp add: finishRead_def)
        ultimately show ?thesis using X cc by (auto split: sum.splits)
      next
        case False
        have d0: "suspenseDepth r' = 0"
        proof (rule ccontr)
          assume "suspenseDepth r' \<noteq> 0"
          then have "bufs' ! 0 = bufs ! 0" using hd by simp
          then show False using False Suc.prems(4) by simp
        qed
        then obtain b0 where b0: "bufs' = [b0]" using ln by (cases bufs') auto
        obtain j where j: "m1 = Suc j" using km1 by (cases m1) auto
        have ret: "readLoop m1 E b r' w' (map Some bufs') False = Some (Inr b0, r', w')"
          using False b0 j by (simp add: readLoop.simps js_get_def)
        obtain m2 where m2: "n2 = Suc m2" and km2: "k < m2" "2 * k + 2 \<le> m2"
          using Suc.prems(8) by (cases n2) auto
        have e0: "enat (length (['''' :: string] ! 0)) < b" using pos by (simp add: zero_enat_def[symmetric])
        have l0: "length ['''' :: string] = Suc (suspenseDepth r')" using d0 by simp
        from Suc.IH[OF inv' ex' l0 e0 X'_def[symmetric] fin' km2]
        have "finishRead m2 m2 E b r' w' (map Some [''''])
              = Some (case X' of Inl e \<Rightarrow> Inl e | Inr (t, rf, wz) \<Rightarrow> Inr (concat [''''] @ t))" .
        then have "readUntilNull n2 E b r' w'
              = Some (case X' of Inl e \<Rightarrow> Inl e | Inr (t, rf, wz) \<Rightarrow> Inr t)"
          unfolding m2 readUntilNull_unfold[OF ex'] by (cases X') auto
        then have "finishRead n1 n2 E b r w (map Some bufs)
              = Some (case X' of Inl e \<Rightarrow> Inl e | Inr (t, rf, wz) \<Rightarrow> Inr (b0 @ t))"
          using loop ret m1 by (auto simp: finishRead_def split: sum.splits)
        then show ?thesis using X cc b0 by (auto split: sum.splits)
      qed
    qed
  qed
qed

lemma sync_total:
  assumes "0 < b" and "travInv r" and "\<not> exhausted r" and "suspenseDepth r = 0"
    and "steps k E r w = X" and "case X of Inl e \<Rightarrow> True | Inr (s, rf, wz) \<Rightarrow> stack rf = []"
    and "2 * k + 3 \<le> n"
  shows "readUntilNull n E b r w = Some (case X of Inl e \<Rightarrow> Inl e | Inr (s, rf, wz) \<Rightarrow> Inr s)"
proof -
  obtain m where m: "n = Suc m" and km: "k < m" "2 * k + 2 \<le> m" using assms(7) by (cases n) auto
  have e0: "enat (length (['''' :: string] ! 0)) < b" using assms(1) by (simp add: zero_enat_def[symmetric])
  have l0: "length ['''' :: string] = Suc (suspenseDepth r)" using assms(4) by simp
  from sync_total_aux[OF assms(1,2,3) l0 e0 assms(5,6) km]
  show ?thesis unfolding m readUntilNull_unfold[OF assms(3)] by (cases X) auto
qed

subsection \<open>Flattening a queue without pending re-renderings\<close>

lemma fuelF_pos: "0 < fuelF x"
  by (cases x) auto

lemma awaitAll_pure_list:
  assumes "\<forall>x\<in>set xs. \<forall>n w. fuelF x \<le> n \<longrightarrow> await n E x w = Some (Fulfilled (Some (flatF x)), w)"
    and "Suc (sum_list (map fuelF xs)) \<le> n"
  shows "awaitAll n E xs w = Some (Fulfilled (map (\<lambda>x. Some (flatF x)) xs), w)"
  using assms
proof (induction xs arbitrary: n)
  case Nil
  then obtain m where "n = Suc m" by (cases n) auto
  then show ?case by simp
next
  case (Cons x xs)
  from Cons.prems(2) obtain m where m: "n = Suc m" by (cases n) auto
  have fx: "fuelF x \<le> m" using Cons.prems(2) m by simp
  have fxs: "Suc (sum_list (map fuelF xs)) \<le> m" using Cons.prems(2) m fuelF_pos[of x] by simp
  have a: "await m E x w = Some (Fulfilled (Some (flatF x)), w)" using Cons.prems(1) fx by simp
  have b: "awaitAll m E xs w = Some (Fulfilled (map (\<lambda>x. Some (flatF x)) xs), w)"
    using Cons.IH[OF _ fxs] Cons.prems(1) by simp
  show ?case unfolding m using a b by simp
qed

lemma js_join_flat: "js_join (map (\<lambda>x. Some (flatF x)) frs @ [Some foot]) = concat (map flatF frs) @ foot"
  by (simp add: js_join_def comp_def)

lemma await_pure:
  "pureF x \<Longrightarrow> fuelF x \<le> n \<Longrightarrow> await n E x w = Some (Fulfilled (Some (flatF x)), w)"
proof (induction x arbitrary: n w)
  case (Str s)
  then obtain m where "n = Suc m" by (cases n) auto
  then show ?case by simp
next
  case (Resume p c st rc)
  then show ?case by simp
next
  case (Boundary frs foot)
  from Boundary.prems(2) obtain m where m: "n = Suc m" by (cases n) auto
  have el: "\<forall>x\<in>set frs. \<forall>n w. fuelF x \<le> n \<longrightarrow> await n E x w = Some (Fulfilled (Some (flatF x)), w)"
    using Boundary.IH Boundary.prems(1) by (auto simp: list_all_iff)
  have "Suc (sum_list (map fuelF frs)) \<le> m" using Boundary.prems(2) m by simp
  from awaitAll_pure_list[OF el this, of w]
  show ?case unfolding m by (simp add: js_join_flat)
qed

lemma flatten_pure:
  assumes "list_all pureF t" and "Suc (sum_list (map fuelF t)) \<le> n"
  shows "\<exists>out pre t'. flattenAndResolveQueue n E b ((Str s0 # t) # qs) w
                        = Some (Fulfilled (Some out), (Str '''' # t') # qs, w)
           \<and> t = pre @ t' \<and> out = s0 @ flatFs pre
           \<and> (s0 = '''' \<and> t \<noteq> [] \<and> 0 < b \<longrightarrow> pre \<noteq> [])"
  using assms
proof (induction t arbitrary: n s0)
  case Nil
  then obtain m where m: "n = Suc m" by (cases n) auto
  show ?case unfolding m
    by (rule exI[of _ s0], rule exI[of _ "[]"], rule exI[of _ "[]"]) (auto simp: flatFs_def)
next
  case (Cons x t)
  from Cons.prems(2) obtain m where m: "n = Suc m" by (cases n) auto
  have fx: "fuelF x \<le> m" using Cons.prems(2) m by simp
  have ft: "Suc (sum_list (map fuelF t)) \<le> m" using Cons.prems(2) m fuelF_pos[of x] by simp
  have px: "pureF x" and pt: "list_all pureF t" using Cons.prems(1) by simp_all
  have stop: "\<exists>out pre t'. Some (Fulfilled (Some s0), (Str '''' # x # t) # qs, w)
                        = Some (Fulfilled (Some out), (Str '''' # t') # qs, w)
           \<and> x # t = pre @ t' \<and> out = s0 @ flatFs pre"
    by (rule exI[of _ s0], rule exI[of _ "[]"], rule exI[of _ "x # t"]) (simp add: flatFs_def)
  have go: "\<exists>out pre t'. flattenAndResolveQueue m E b ((Str (s0 @ flatF x) # t) # qs) w
                        = Some (Fulfilled (Some out), (Str '''' # t') # qs, w)
           \<and> x # t = pre @ t' \<and> out = s0 @ flatFs pre \<and> pre \<noteq> []"
  proof -
    from Cons.IH[OF pt ft, of "s0 @ flatF x"] obtain out pre t' where
      a: "flattenAndResolveQueue m E b ((Str (s0 @ flatF x) # t) # qs) w
            = Some (Fulfilled (Some out), (Str '''' # t') # qs, w)"
        "t = pre @ t'" "out = (s0 @ flatF x) @ flatFs pre"
      by blast
    show ?thesis
      by (rule exI[of _ out], rule exI[of _ "x # pre"], rule exI[of _ t'])
         (use a in \<open>simp add: flatFs_def\<close>)
  qed
  show ?case
  proof (cases "enat (length s0) < b")
    case False
    then have "flattenAndResolveQueue n E b ((Str s0 # x # t) # qs) w
               = Some (Fulfilled (Some s0), (Str '''' # x # t) # qs, w)"
      unfolding m by simp
    moreover from False have "\<not> (s0 = '''' \<and> 0 < b)" by (auto simp: zero_enat_def[symmetric])
    ultimately show ?thesis using stop by auto
  next
    case True
    show ?thesis
    proof (cases x)
      case (Str s1)
      then have "flattenAndResolveQueue n E b ((Str s0 # x # t) # qs) w
                 = flattenAndResolveQueue m E b ((Str (s0 @ flatF x) # t) # qs) w"
        unfolding m using True by simp
      then show ?thesis using go by auto
    next
      case (Resume p c st rc)
      then show ?thesis using px by simp
    next
      case (Boundary frs foot)
      show ?thesis
      proof (cases "b \<noteq> \<infinity> \<and> length s0 > 0")
        case early: True
        then have "flattenAndResolveQueue n E b ((Str s0 # x # t) # qs) w
               = Some (Fulfilled (Some s0), (Str '''' # x # t) # qs, w)"
          unfolding m using True Boundary by simp
        moreover from early have "s0 \<noteq> ''''" by auto
        ultimately show ?thesis using stop by auto
      next
        case False
        have "await m E x w = Some (Fulfilled (Some (flatF x)), w)" using await_pure[OF px fx] .
        then have "flattenAndResolveQueue n E b ((Str s0 # x # t) # qs) w
                 = flattenAndResolveQueue m E b ((Str (s0 @ flatF x) # t) # qs) w"
          unfolding m using True False Boundary by (auto simp: js_plus_def)
        then show ?thesis using go by auto
      qed
    qed
  qed
qed

subsection \<open>The traversal does not look at the queue\<close>

lemma renderResolved_outQueue:
  "renderResolved E nx (r\<lparr>outQueue := q\<rparr>) w
     = (case renderResolved E nx r w of
          Inl t \<Rightarrow> Inl t
        | Inr (s, r', w') \<Rightarrow> Inr (s, r'\<lparr>outQueue := q\<rparr>, w'))"
  by (cases "(E, nx, r, w)" rule: renderResolved.cases)
     (auto simp: renderDOM_def Let_def pushFrame_def plainFrame_def pushProvider_def
        split: sum.splits prod.splits if_splits option.splits)

lemma render_outQueue:
  "render E t (r\<lparr>outQueue := q\<rparr>) w
     = (case render E t r w of
          Inl x \<Rightarrow> Inl x
        | Inr (s, r', w') \<Rightarrow> Inr (s, r'\<lparr>outQueue := q\<rparr>, w'))"
  by (cases t) (auto simp: render_def renderResolved_outQueue split: sum.splits)

lemma tstep_outQueue:
  "tstep E (r\<lparr>outQueue := q\<rparr>) w
     = (case tstep E r w of
          Inl e \<Rightarrow> Inl e
        | Inr (s, r', w') \<Rightarrow> Inr (s, r'\<lparr>outQueue := q\<rparr>, w'))"
proof (cases "stack r")
  case Nil
  then show ?thesis by (simp add: tstep_def)
next
  case (Cons frame rest)
  show ?thesis
  proof (cases "length (children frame) \<le> childIndex frame")
    case True
    then show ?thesis using Cons
      by (auto simp: tstep_def Let_def popProvider_def split: ftype.splits option.splits)
  next
    case False
    have sw: "r\<lparr>outQueue := q\<rparr>\<lparr>stack := advance frame # rest\<rparr>
              = r\<lparr>stack := advance frame # rest\<rparr>\<lparr>outQueue := q\<rparr>"
      by simp
    from False show ?thesis using Cons
      render_outQueue[where E = E and t = "children frame ! childIndex frame"
        and r = "r\<lparr>stack := advance frame # rest\<rparr>" and q = q and w = w]
      by (simp add: tstep_def sw split: sum.splits thrown.splits)
  qed
qed

lemma steps_outQueue:
  "steps k E (r\<lparr>outQueue := q\<rparr>) w
     = (case steps k E r w of
          Inl e \<Rightarrow> Inl e
        | Inr (s, r', w') \<Rightarrow> Inr (s, r'\<lparr>outQueue := q\<rparr>, w'))"
  by (induction k arbitrary: r w) (auto simp: tstep_outQueue split: sum.splits)

lemma ran_outQueue: "ran k E (r\<lparr>outQueue := q\<rparr>) w Y = ran k E r w Y"
  by (auto simp: ran_def steps_outQueue split: sum.splits)

lemma ran_err: "tstep E r w = Inl e \<Longrightarrow> ran (Suc k) E r w Y \<longleftrightarrow> Y = Inl e"
  by (simp add: ran_def)

lemma ran_step:
  "tstep E r w = Inr (s, r', w') \<Longrightarrow>
   ran (Suc k) E r w Y \<longleftrightarrow>
     (\<exists>Y'. ran k E r' w' Y' \<and> Y = (case Y' of Inl e \<Rightarrow> Inl e | Inr t \<Rightarrow> Inr (s @ t)))"
  by (auto simp: ran_def split: sum.splits)

lemma ran_empty: "stack r = [] \<Longrightarrow> ran k E r w Y \<longleftrightarrow> Y = Inr ''''"
  by (simp add: ran_def steps_empty)

lemma ran_exists:
  assumes "reaches E r w []"
  shows "\<exists>k Y. ran k E r w Y"
proof -
  from assms obtain k where
    k: "(\<exists>e. steps k E r w = Inl e) \<or> (\<exists>s r' w'. steps k E r w = Inr (s, r', w') \<and> stack r' = [])"
    unfolding reaches_def by blast
  then show ?thesis
  proof
    assume "\<exists>e. steps k E r w = Inl e"
    then obtain e where "steps k E r w = Inl e" by blast
    then have "ran k E r w (Inl e)" by (simp add: ran_def)
    then show ?thesis by blast
  next
    assume "\<exists>s r' w'. steps k E r w = Inr (s, r', w') \<and> stack r' = []"
    then obtain s r' w' where "steps k E r w = Inr (s, r', w')" "stack r' = []" by blast
    then have "ran k E r w (Inr s)" by (simp add: ran_def)
    then show ?thesis by blast
  qed
qed

lemma sync_total_ran:
  assumes "0 < b" and "travInv r" and "\<not> exhausted r" and "suspenseDepth r = 0"
    and "ran k E r w Y" and "2 * k + 3 \<le> n"
  shows "readUntilNull n E b r w = Some Y"
proof -
  define X where "X = steps k E r w"
  have f: "case X of Inl e \<Rightarrow> True | Inr (s, rf, wz) \<Rightarrow> stack rf = []"
    using assms(5) by (auto simp: ran_def X_def split: sum.splits)
  have y: "Y = (case X of Inl e \<Rightarrow> Inl e | Inr (s, rf, wz) \<Rightarrow> Inr s)"
    using assms(5) by (auto simp: ran_def X_def split: sum.splits)
  from sync_total[OF assms(1,2,3,4) X_def[symmetric] f assms(6)] show ?thesis using y by simp
qed

subsection \<open>The asynchronous reader hands out what the traversal hands out\<close>

lemma flatQ_upd_last:
  assumes "length q = Suc d" and "flatFs L = flatFs (q ! d) @ s"
  shows "flatQ (q[d := L]) = flatQ q @ s"
proof -
  have l: "length (map flatFs q) = Suc d" using assms(1) by simp
  have "map flatFs (q[d := L]) = (map flatFs q)[d := map flatFs q ! d @ s]"
    using assms by (simp add: map_update)
  then show ?thesis unfolding flatQ_def using concat_upd_last[OF l, of s] by simp
qed

lemma qInv_level:
  assumes "qInv r"
  shows "\<exists>s0 t. outQueue r ! suspenseDepth r = Str s0 # t \<and> list_all pureF t"
  using assms by (auto simp: qInv_def list_all_length)

lemma list_all_update:
  "list_all P xs \<Longrightarrow> P x \<Longrightarrow> list_all P (xs[i := x])"
  by (induction xs arbitrary: i) (auto split: nat.splits)

lemma push_str:
  assumes "qInv r"
  shows "\<exists>q'. pushToOutQueue (Str s) r = Inr (r\<lparr>outQueue := q'\<rparr>)
           \<and> flatQ q' = flatQ (outQueue r) @ s \<and> qInv (r\<lparr>outQueue := q'\<rparr>)"
proof -
  let ?d = "suspenseDepth r"
  let ?q = "outQueue r"
  have len: "length ?q = Suc ?d" using assms by (simp add: qInv_def)
  from qInv_level[OF assms] obtain s0 t where lv: "?q ! ?d = Str s0 # t" "list_all pureF t" by blast
  obtain ys y where sn: "Str s0 # t = ys @ [y]" by (cases "Str s0 # t" rule: rev_cases) auto
  let ?L = "case y of Str u \<Rightarrow> ys @ [Str (u @ s)] | _ \<Rightarrow> ys @ [y, Str s]"
  have lt: "?d < length ?q" using len by simp
  have p: "pushToOutQueue (Str s) r = Inr (r\<lparr>outQueue := ?q[?d := ?L]\<rparr>)"
    using pushToOutQueue_string[OF lt, of ys y s] lv(1) sn by simp
  have fl: "flatFs ?L = flatFs (?q ! ?d) @ s"
    using lv(1) sn by (cases y) (simp_all add: flatFs_def)
  have sh: "\<exists>s1 t1. ?L = Str s1 # t1 \<and> list_all pureF t1"
  proof (cases ys)
    case Nil
    then show ?thesis using sn by (cases y) auto
  next
    case (Cons z zs)
    then have "z = Str s0" "t = zs @ [y]" using sn by simp_all
    then show ?thesis using Cons lv(2) by (cases y) auto
  qed
  have "list_all (\<lambda>l. \<exists>s t. l = Str s # t \<and> list_all pureF t) (?q[?d := ?L])"
    using assms sh by (intro list_all_update) (simp_all add: qInv_def)
  then have qi: "qInv (r\<lparr>outQueue := ?q[?d := ?L]\<rparr>)" using len by (simp add: qInv_def)
  show ?thesis using p flatQ_upd_last[OF len fl] qi by blast
qed

lemma async_exit:
  assumes "travInv r" and "qInv r" and "stack r = frame # rest"
    and "length (children frame) \<le> childIndex frame"
  shows "case tstep E r w of
           Inl e \<Rightarrow> (\<exists>r' w'. asyncExit frame rest r w = Inl (e, r', w'))
         | Inr (s, r', w') \<Rightarrow>
             (\<exists>q'. asyncExit frame rest r w = Inr (r'\<lparr>outQueue := q'\<rparr>, w')
                \<and> flatQ q' = flatQ (outQueue r) @ s \<and> qInv (r'\<lparr>outQueue := q'\<rparr>))"
proof -
  let ?r1 = "r\<lparr>previousWasTextNode := (if footer frame \<noteq> '''' then False else previousWasTextNode r),
               stack := rest\<rparr>"
  have q1: "qInv ?r1" using assms(2) by (simp add: qInv_def)
  show ?thesis
  proof (cases "ftype frame")
    case TSuspense
    then have "0 < suspenseDepth r" using assms(1,3) by (simp add: travInv_def isSuspenseFrame_def)
    then obtain d where d: "suspenseDepth r = Suc d" by (cases "suspenseDepth r") auto
    have len: "length (outQueue r) = Suc (Suc d)" using assms(2) d by (simp add: qInv_def)
    let ?q = "outQueue r"
    let ?bl = "butlast ?q"
    let ?q' = "?bl[d := ?bl ! d @ [Boundary (last ?q) (footer frame)]]"
    let ?r' = "r\<lparr>previousWasTextNode := (if footer frame \<noteq> '''' then False else previousWasTextNode r),
                  stack := rest, suspenseDepth := d\<rparr>"
    have ne: "?q \<noteq> []" using len by auto
    have lbl: "length ?bl = Suc d" using len by simp
    have ae: "asyncExit frame rest r w = Inr (?r'\<lparr>outQueue := ?q'\<rparr>, w)"
      using asyncExit_boundary[OF TSuspense d len, of rest w] by simp
    have ts: "tstep E r w = Inr (footer frame, ?r', w)"
      using assms(3,4) TSuspense d by (simp add: tstep_def Let_def)
    have all: "list_all (\<lambda>l. \<exists>s t. l = Str s # t \<and> list_all pureF t) ?q"
      using assms(2) by (simp add: qInv_def)
    have allb: "list_all (\<lambda>l. \<exists>s t. l = Str s # t \<and> list_all pureF t) ?bl"
      using all by (auto simp: list_all_iff dest: in_set_butlastD)
    have "last ?q \<in> set ?q" using ne by simp
    then obtain sl tl where la: "last ?q = Str sl # tl" "list_all pureF tl"
      using all by (auto simp: list_all_iff)
    obtain sb tb where lb: "?bl ! d = Str sb # tb" "list_all pureF tb"
      using allb lbl by (auto simp: list_all_length)
    have fl: "flatFs (?bl ! d @ [Boundary (last ?q) (footer frame)])
              = flatFs (?bl ! d) @ (flatFs (last ?q) @ footer frame)"
      by (simp add: flatFs_def)
    have "flatQ (?bl @ [last ?q]) = flatQ ?bl @ flatFs (last ?q)" by (simp add: flatQ_def)
    then have "flatQ ?q = flatQ ?bl @ flatFs (last ?q)"
      using append_butlast_last_id[OF ne] by simp
    then have fq: "flatQ ?q' = flatQ ?q @ footer frame"
      using flatQ_upd_last[OF lbl fl] by simp
    have "list_all (\<lambda>l. \<exists>s t. l = Str s # t \<and> list_all pureF t) ?q'"
      using allb lb la by (intro list_all_update) simp_all
    then have qi: "qInv (?r'\<lparr>outQueue := ?q'\<rparr>)" using lbl by (simp add: qInv_def)
    show ?thesis using ts ae fq qi by auto
  next
    case (TProvider c)
    show ?thesis
    proof (cases "popProvider ?r1 w")
      case (Inl x)
      then show ?thesis using assms(3,4) TProvider
        by (auto simp: tstep_def asyncExit_def Let_def split: prod.splits)
    next
      case (Inr y)
      obtain r2 w2 where y: "y = (r2, w2)" by (cases y)
      have "outQueue r2 = outQueue r" "suspenseDepth r2 = suspenseDepth r"
        using Inr y by (auto simp: popProvider_def Let_def split: option.splits)
      then have q2: "qInv r2" using assms(2) by (simp add: qInv_def)
      from push_str[OF q2, of "footer frame"] obtain q' where
        "pushToOutQueue (Str (footer frame)) r2 = Inr (r2\<lparr>outQueue := q'\<rparr>)"
        "flatQ q' = flatQ (outQueue r2) @ footer frame" "qInv (r2\<lparr>outQueue := q'\<rparr>)"
        by blast
      then show ?thesis using assms(3,4) TProvider Inr y \<open>outQueue r2 = outQueue r\<close>
        by (auto simp: tstep_def asyncExit_def Let_def)
    qed
  next
    case TNull
    from push_str[OF q1, of "footer frame"] obtain q' where
      "pushToOutQueue (Str (footer frame)) ?r1 = Inr (?r1\<lparr>outQueue := q'\<rparr>)"
      "flatQ q' = flatQ (outQueue ?r1) @ footer frame" "qInv (?r1\<lparr>outQueue := q'\<rparr>)"
      by blast
    then show ?thesis using assms(3,4) TNull
      by (auto simp: tstep_def asyncExit_def Let_def)
  next
    case (TTag tg)
    from push_str[OF q1, of "footer frame"] obtain q' where
      "pushToOutQueue (Str (footer frame)) ?r1 = Inr (?r1\<lparr>outQueue := q'\<rparr>)"
      "flatQ q' = flatQ (outQueue ?r1) @ footer frame" "qInv (?r1\<lparr>outQueue := q'\<rparr>)"
      by blast
    then show ?thesis using assms(3,4) TTag
      by (auto simp: tstep_def asyncExit_def Let_def)
  next
    case TConsumer
    from push_str[OF q1, of "footer frame"] obtain q' where
      "pushToOutQueue (Str (footer frame)) ?r1 = Inr (?r1\<lparr>outQueue := q'\<rparr>)"
      "flatQ q' = flatQ (outQueue ?r1) @ footer frame" "qInv (?r1\<lparr>outQueue := q'\<rparr>)"
      by blast
    then show ?thesis using assms(3,4) TConsumer
      by (auto simp: tstep_def asyncExit_def Let_def)
  qed
qed

lemma async_child:
  assumes "travInv r" and "qInv r" and "stack r = frame # rest"
    and "childIndex frame < length (children frame)"
  shows "case tstep E r w of
           Inl e \<Rightarrow> (\<exists>r' w'. asyncChild E frame rest r w = Inl (e, r', w'))
         | Inr (s, r', w') \<Rightarrow>
             (\<exists>q'. asyncChild E frame rest r w = Inr (r'\<lparr>outQueue := q'\<rparr>, w')
                \<and> flatQ q' = flatQ (outQueue r) @ s \<and> qInv (r'\<lparr>outQueue := q'\<rparr>))"
proof -
  let ?child = "children frame ! childIndex frame"
  let ?r1 = "r\<lparr>stack := advance frame # rest\<rparr>"
  let ?can = "0 < suspenseDepth ?r1 \<or> isChildRenderer ?r1"
  have "list_all noPending (children frame)" using assms(1,3) by (simp add: travInv_def)
  then have np: "noPending ?child" using assms(4) by (simp add: list_all_length)
  show ?thesis
  proof (cases "render E ?child ?r1 w")
    case (Inl t)
    then obtain e where "t = Failure e" using render_noPending[OF np, of E ?r1 w] by (cases t) auto
    then show ?thesis using Inl assms(3,4)
      by (simp add: tstep_def asyncChild_def renderEventually_def Let_def)
  next
    case (Inr y)
    obtain s r2 w2 where y: "y = (s, r2, w2)" by (cases y)
    note rr = Inr[unfolded y]
    from render_depth[OF rr] have
      d: "suspenseDepth r2 = suspenseDepth r \<or> suspenseDepth r2 = Suc (suspenseDepth r)" by simp
    from render_same[OF rr] have oq: "outQueue r2 = outQueue r" by simp
    have ts: "tstep E r w = Inr (s, r2, w2)" using rr assms(3,4) by (simp add: tstep_def)
    have len: "length (outQueue r) = Suc (suspenseDepth r)" using assms(2) by (simp add: qInv_def)
    have all: "list_all (\<lambda>l. \<exists>s t. l = Str s # t \<and> list_all pureF t) (outQueue r)"
      using assms(2) by (simp add: qInv_def)
    let ?r3 = "if length (outQueue r2) \<le> suspenseDepth r2
               then r2\<lparr>outQueue := outQueue r2 @ [[Str '''']]\<rparr> else r2"
    have q3: "qInv ?r3" using d oq len all by (auto simp: qInv_def)
    have f3: "flatQ (outQueue ?r3) = flatQ (outQueue r)" using oq by (simp add: flatQ_def flatFs_def)
    from push_str[OF q3, of s] obtain q' where
      p: "pushToOutQueue (Str s) ?r3 = Inr (?r3\<lparr>outQueue := q'\<rparr>)"
      and fq: "flatQ q' = flatQ (outQueue ?r3) @ s" and qi: "qInv (?r3\<lparr>outQueue := q'\<rparr>)"
      by blast
    have e3: "?r3\<lparr>outQueue := q'\<rparr> = r2\<lparr>outQueue := q'\<rparr>" by simp
    have ac: "asyncChild E frame rest r w = Inr (r2\<lparr>outQueue := q'\<rparr>, w2)"
      using rr p e3 by (simp add: asyncChild_def renderEventually_def Let_def)
    show ?thesis using ts ac fq f3 qi e3 by auto
  qed
qed

lemma async_step:
  assumes "travInv r" and "qInv r" and "stack r = frame # rest"
  shows "case tstep E r w of
           Inl e \<Rightarrow>
             (\<exists>r' w'. (if length (children frame) \<le> childIndex frame
                        then asyncExit frame rest r w
                        else asyncChild E frame rest r w) = Inl (e, r', w'))
         | Inr (s, r', w') \<Rightarrow>
             (\<exists>q'. (if length (children frame) \<le> childIndex frame
                     then asyncExit frame rest r w
                     else asyncChild E frame rest r w) = Inr (r'\<lparr>outQueue := q'\<rparr>, w')
                \<and> flatQ q' = flatQ (outQueue r) @ s \<and> qInv (r'\<lparr>outQueue := q'\<rparr>))"
proof (cases "length (children frame) \<le> childIndex frame")
  case True
  then show ?thesis using async_exit[OF assms True, where E = E and w = w] by simp
next
  case False
  then have "childIndex frame < length (children frame)" by simp
  from async_child[OF assms this, where E = E and w = w] show ?thesis using False by simp
qed

lemma readAsyncUntilNull_unfold:
  "readAsyncUntilNull (Suc (Suc n)) E b r w =
     (if exhausted r \<and> isDrained (outQueue r) then Some (Fulfilled '''')
      else finishAsync n n (Suc n) E b r w)"
  by (auto simp: finishAsync_def afterLoop_def split: option.splits sum.splits prod.splits settle.splits)

lemma flatFs_append: "flatFs (xs @ ys) = flatFs xs @ flatFs ys"
  by (simp add: flatFs_def)

lemma drain_reads:
  assumes pos: "0 < b"
  shows "\<lbrakk>exhausted r; outQueue r = [Str '''' # t]; list_all pureF t;
          2 * length t + sum_list (map fuelF t) + 3 \<le> n\<rbrakk>
     \<Longrightarrow> readAsyncUntilNull n E b r w = Some (Fulfilled (flatFs t))"
proof (induction "length t" arbitrary: t r n rule: less_induct)
  case less
  obtain m where m: "n = Suc (Suc m)" and mb: "2 * length t + sum_list (map fuelF t) + 1 \<le> m"
    using less.prems(4) by (cases n; cases "n - 1") auto
  show ?case
  proof (cases t)
    case Nil
    then show ?thesis unfolding m readAsyncUntilNull_unfold
      using less.prems(1,2) by (simp add: isDrained_def flatFs_def)
  next
    case (Cons x t0)
    have nd: "\<not> isDrained (outQueue r)" using less.prems(2) Cons by (simp add: isDrained_def)
    obtain j where j: "m = Suc j" using mb by (cases m) auto
    have lp: "asyncLoop m E b r w = Some (Inr (r, w))" unfolding j using less.prems(1) by simp
    have fm: "Suc (sum_list (map fuelF t)) \<le> m" using mb by simp
    from flatten_pure[OF less.prems(3) fm, of E b "''''" "[]" w] obtain out pre t' where
      fl: "flattenAndResolveQueue m E b [Str '''' # t] w = Some (Fulfilled (Some out), [Str '''' # t'], w)"
      and tt: "t = pre @ t'" and oo: "out = '''' @ flatFs pre"
      and pr: "'''' = '''' \<and> t \<noteq> [] \<and> 0 < b \<longrightarrow> pre \<noteq> []"
      by blast
    have pne: "pre \<noteq> []" using pr Cons pos by simp
    then have sh: "length t' < length t" using tt by simp
    have pt': "list_all pureF t'" using less.prems(3) tt by simp
    have "sum_list (map fuelF t') \<le> sum_list (map fuelF t)" using tt by simp
    then have fb: "2 * length t' + sum_list (map fuelF t') + 3 \<le> Suc m" using mb sh by simp
    let ?r' = "r\<lparr>outQueue := [Str '''' # t']\<rparr>"
    have "readAsyncUntilNull (Suc m) E b ?r' w = Some (Fulfilled (flatFs t'))"
      by (rule less.hyps[OF sh _ _ pt' fb]) (use less.prems(1) in simp_all)
    then have "finishAsync m m (Suc m) E b r w = Some (Fulfilled (out @ flatFs t'))"
      using lp fl less.prems(2) by (simp add: finishAsync_def afterLoop_def)
    then show ?thesis unfolding m readAsyncUntilNull_unfold using nd tt oo
      by (simp add: flatFs_append)
  qed
qed

lemma drain_after:
  assumes "0 < b" and "exhausted r" and "outQueue r = [Str s0 # t]" and "list_all pureF t"
    and "Suc (sum_list (map fuelF t)) \<le> n2" and "2 * length t + sum_list (map fuelF t) + 3 \<le> n3"
  shows "afterLoop n2 n3 E b r w = Some (Fulfilled (s0 @ flatFs t))"
proof -
  from flatten_pure[OF assms(4,5), of E b s0 "[]" w] obtain out pre t' where
    fl: "flattenAndResolveQueue n2 E b [Str s0 # t] w = Some (Fulfilled (Some out), [Str '''' # t'], w)"
    and tt: "t = pre @ t'" and oo: "out = s0 @ flatFs pre"
    by blast
  have pt': "list_all pureF t'" using assms(4) tt by simp
  have "sum_list (map fuelF t') \<le> sum_list (map fuelF t)" "length t' \<le> length t" using tt by simp_all
  then have fb: "2 * length t' + sum_list (map fuelF t') + 3 \<le> n3" using assms(6) by simp
  let ?r' = "r\<lparr>outQueue := [Str '''' # t']\<rparr>"
  have "readAsyncUntilNull n3 E b ?r' w = Some (Fulfilled (flatFs t'))"
    by (rule drain_reads[OF assms(1) _ _ pt' fb]) (use assms(2) in simp_all)
  then show ?thesis using fl assms(3) tt oo by (simp add: afterLoop_def flatFs_append)
qed

lemma travInv_outQueue [simp]: "travInv (r\<lparr>outQueue := q\<rparr>) = travInv r"
  by (simp add: travInv_def)

lemma qInv_head:
  assumes "qInv r"
  shows "\<exists>s0 t qs. outQueue r = (Str s0 # t) # qs \<and> list_all pureF t
           \<and> headBelow (outQueue r) b = Some (enat (length s0) < b)"
proof -
  from assms obtain l qs where q: "outQueue r = l # qs" by (cases "outQueue r") (auto simp: qInv_def)
  with assms obtain s0 t where "l = Str s0 # t" "list_all pureF t" by (auto simp: qInv_def)
  then show ?thesis using q by (simp add: headBelow_def)
qed

lemma async_finish_empty:
  assumes "0 < b" and "travInv r" and "qInv r" and "\<not> exhausted r"
    and "headBelow (outQueue r) b = Some True" and "stack r = []"
  shows "\<exists>N. \<forall>n1 n2 n3. N \<le> n1 \<and> N \<le> n2 \<and> N \<le> n3 \<longrightarrow>
           finishAsync n1 n2 n3 E b r w = Some (Fulfilled (flatQ (outQueue r)))"
proof -
  have d: "suspenseDepth r = 0" using assms(2,6) by (simp add: travInv_def)
  from qInv_head[OF assms(3), of b] obtain s0 t qs where
    q: "outQueue r = (Str s0 # t) # qs" "list_all pureF t" by blast
  have "length (outQueue r) = 1" using assms(3) d by (simp add: qInv_def)
  then have qs: "qs = []" using q(1) by simp
  let ?N = "2 * length t + sum_list (map fuelF t) + 3"
  let ?r1 = "r\<lparr>exhausted := True\<rparr>"
  have "finishAsync n1 n2 n3 E b r w = Some (Fulfilled (flatQ (outQueue r)))"
    if n: "?N \<le> n1 \<and> ?N \<le> n2 \<and> ?N \<le> n3" for n1 n2 n3
  proof -
    obtain m where m: "n1 = Suc m" using n by (cases n1) auto
    have lp: "asyncLoop n1 E b r w = Some (Inr (?r1, freeThreadID (threadID r) w))"
      unfolding m using assms(4,5,6) by simp
    have a: "Suc (sum_list (map fuelF t)) \<le> n2" using n by simp
    have b: "2 * length t + sum_list (map fuelF t) + 3 \<le> n3" using n by simp
    have "afterLoop n2 n3 E b ?r1 (freeThreadID (threadID r) w) = Some (Fulfilled (s0 @ flatFs t))"
      by (rule drain_after[OF assms(1) _ _ q(2) a b]) (use q(1) qs in simp_all)
    then show ?thesis using lp q(1) qs by (simp add: finishAsync_def flatQ_def flatFs_def)
  qed
  then show ?thesis by blast
qed

lemma async_total_aux:
  assumes pos: "0 < b"
  shows "\<lbrakk>travInv r; qInv r; \<not> exhausted r; headBelow (outQueue r) b = Some True; ran k E r w Y\<rbrakk>
     \<Longrightarrow> \<exists>N. \<forall>n1 n2 n3. N \<le> n1 \<and> N \<le> n2 \<and> N \<le> n3 \<longrightarrow>
           finishAsync n1 n2 n3 E b r w
             = Some (case Y of Inl e \<Rightarrow> Rejected e | Inr s \<Rightarrow> Fulfilled (flatQ (outQueue r) @ s))"
proof (induction k arbitrary: r w Y)
  case 0
  then have st: "stack r = []" and y: "Y = Inr ''''" by (auto simp: ran_def)
  from async_finish_empty[OF pos 0(1,2,3,4) st, of E w] show ?case using y by simp
next
  case (Suc k)
  show ?case
  proof (cases "stack r")
    case Nil
    then have y: "Y = Inr ''''" using Suc.prems(5) by (simp add: ran_empty)
    from async_finish_empty[OF pos Suc.prems(1,2,3,4) Nil, of E w] show ?thesis using y by simp
  next
    case (Cons frame rest)
    let ?step = "if length (children frame) \<le> childIndex frame
                 then asyncExit frame rest r w else asyncChild E frame rest r w"
    note sim = async_step[OF Suc.prems(1,2) Cons, where E = E and w = w]
    show ?thesis
    proof (cases "tstep E r w")
      case (Inl e)
      then have y: "Y = Inl e" using Suc.prems(5) by (simp add: ran_err)
      from sim Inl obtain r' w' where st: "?step = Inl (e, r', w')" by auto
      have "finishAsync n1 n2 n3 E b r w = Some (Rejected e)" if n: "1 \<le> n1" for n1 n2 n3
      proof -
        obtain m where m: "n1 = Suc m" using n by (cases n1) auto
        have "asyncLoop n1 E b r w = Some (Inl (e, r', w'))"
          unfolding m using Suc.prems(3,4) Cons st by (simp split: if_splits)
        then show ?thesis by (simp add: finishAsync_def)
      qed
      then show ?thesis using y by auto
    next
      case (Inr x)
      obtain s r' w' where x: "x = (s, r', w')" by (cases x)
      note ts = Inr[unfolded x]
      from sim ts obtain q' where
        st: "?step = Inr (r'\<lparr>outQueue := q'\<rparr>, w')" and
        fq: "flatQ q' = flatQ (outQueue r) @ s" and
        qi: "qInv (r'\<lparr>outQueue := q'\<rparr>)"
        by auto
      let ?r2 = "r'\<lparr>outQueue := q'\<rparr>"
      have ti: "travInv ?r2" using tstep_travInv[OF Suc.prems(1) ts] by simp
      have ne: "\<not> exhausted ?r2" using tstep_same[OF ts] Suc.prems(3) by simp
      from Suc.prems(5) ts obtain Y' where
        y': "ran k E r' w' Y'" and y: "Y = (case Y' of Inl e \<Rightarrow> Inl e | Inr t \<Rightarrow> Inr (s @ t))"
        by (auto simp: ran_step)
      have loop: "asyncLoop (Suc m) E b r w = asyncLoop m E b ?r2 w'" for m
        using Suc.prems(3,4) Cons st by (simp split: if_splits)
      from qInv_head[OF qi, of b] obtain s0 t qs where
        q: "q' = (Str s0 # t) # qs" "list_all pureF t"
        and hb: "headBelow q' b = Some (enat (length s0) < b)"
        by auto
      show ?thesis
      proof (cases "enat (length s0) < b")
        case True
        have h2: "headBelow (outQueue ?r2) b = Some True" using hb True by simp
        have r2: "ran k E ?r2 w' Y'" using y' by (simp add: ran_outQueue)
        from Suc.IH[OF ti qi ne h2 r2] obtain N where
          N: "\<forall>n1 n2 n3. N \<le> n1 \<and> N \<le> n2 \<and> N \<le> n3 \<longrightarrow>
                finishAsync n1 n2 n3 E b ?r2 w'
                  = Some (case Y' of Inl e \<Rightarrow> Rejected e | Inr u \<Rightarrow> Fulfilled (flatQ (outQueue ?r2) @ u))"
          by blast
        have "finishAsync n1 n2 n3 E b r w
                = Some (case Y of Inl e \<Rightarrow> Rejected e | Inr u \<Rightarrow> Fulfilled (flatQ (outQueue r) @ u))"
          if n: "Suc N \<le> n1 \<and> Suc N \<le> n2 \<and> Suc N \<le> n3" for n1 n2 n3
        proof -
          obtain m where m: "n1 = Suc m" and mN: "N \<le> m" using n by (cases n1) auto
          have "finishAsync n1 n2 n3 E b r w = finishAsync m n2 n3 E b ?r2 w'"
            unfolding m by (simp add: finishAsync_def loop del: asyncLoop.simps)
          also have "\<dots> = Some (case Y' of Inl e \<Rightarrow> Rejected e | Inr u \<Rightarrow> Fulfilled (flatQ (outQueue ?r2) @ u))"
            using N mN n by simp
          finally show ?thesis using y fq by (cases Y') auto
        qed
        then show ?thesis by blast
      next
        case False
        have s0ne: "s0 \<noteq> ''''" using False pos by (auto simp: zero_enat_def[symmetric])
        let ?r3 = "?r2\<lparr>outQueue := (Str '''' # t) # qs\<rparr>"
        have ti3: "travInv ?r3" using ti by simp
        have qi3: "qInv ?r3" using qi q by (simp add: qInv_def)
        have ne3: "\<not> exhausted ?r3" using ne by simp
        have h3: "headBelow (outQueue ?r3) b = Some True"
          using pos by (simp add: headBelow_def zero_enat_def[symmetric])
        have r3: "ran k E ?r3 w' Y'" using y' by (simp add: ran_outQueue)
        from Suc.IH[OF ti3 qi3 ne3 h3 r3] obtain N where
          N: "\<forall>n1 n2 n3. N \<le> n1 \<and> N \<le> n2 \<and> N \<le> n3 \<longrightarrow>
                finishAsync n1 n2 n3 E b ?r3 w'
                  = Some (case Y' of Inl e \<Rightarrow> Rejected e | Inr u \<Rightarrow> Fulfilled (flatQ (outQueue ?r3) @ u))"
          by blast
        have f3: "s0 @ flatQ (outQueue ?r3) = flatQ q'" using q by (simp add: flatQ_def flatFs_def)
        have "finishAsync n1 n2 n3 E b r w
                = Some (case Y of Inl e \<Rightarrow> Rejected e | Inr u \<Rightarrow> Fulfilled (flatQ (outQueue r) @ u))"
          if n: "N + 2 \<le> n1 \<and> N + 2 \<le> n2 \<and> N + 2 \<le> n3" for n1 n2 n3
        proof -
          obtain m where m: "n1 = Suc (Suc m)" using n by (cases n1; cases "n1 - 1") auto
          obtain m2 where m2: "n2 = Suc m2" using n by (cases n2) auto
          obtain m3 where m3: "n3 = Suc (Suc m3)" and m3N: "N \<le> m3"
            using n by (cases n3; cases "n3 - 1") auto
          have lp: "asyncLoop n1 E b r w = Some (Inr (?r2, w'))"
            unfolding m loop using ne hb False by simp
          have fl: "flattenAndResolveQueue n2 E b (outQueue ?r2) w'
                    = Some (Fulfilled (Some s0), (Str '''' # t) # qs, w')"
            unfolding m2 using q False s0ne by simp
          have "readAsyncUntilNull n3 E b ?r3 w' = finishAsync m3 m3 (Suc m3) E b ?r3 w'"
            unfolding m3 readAsyncUntilNull_unfold using ne3 by simp
          also have "\<dots> = Some (case Y' of Inl e \<Rightarrow> Rejected e | Inr u \<Rightarrow> Fulfilled (flatQ (outQueue ?r3) @ u))"
            using N m3N by simp
          finally have rd: "readAsyncUntilNull n3 E b ?r3 w'
              = Some (case Y' of Inl e \<Rightarrow> Rejected e | Inr u \<Rightarrow> Fulfilled (flatQ (outQueue ?r3) @ u))" .
          have "finishAsync n1 n2 n3 E b r w
                = (case Y' of Inl e \<Rightarrow> Some (Rejected e)
                   | Inr u \<Rightarrow> Some (Fulfilled (s0 @ flatQ (outQueue ?r3) @ u)))"
            using lp fl rd by (cases Y') (simp_all add: finishAsync_def afterLoop_def)
          then show ?thesis using y fq f3 by (cases Y') (simp_all add: append_assoc[symmetric] del: append_assoc)
        qed
        then show ?thesis by blast
      qed
    qed
  qed
qed

lemma async_total:
  assumes "0 < b" and "travInv r" and "qInv r" and "\<not> exhausted r"
    and "headBelow (outQueue r) b = Some True" and "ran k E r w Y"
  shows "\<exists>N. \<forall>n\<ge>N. readAsyncUntilNull n E b r w
           = Some (case Y of Inl e \<Rightarrow> Rejected e | Inr s \<Rightarrow> Fulfilled (flatQ (outQueue r) @ s))"
proof -
  from async_total_aux[OF assms] obtain N where
    N: "\<forall>n1 n2 n3. N \<le> n1 \<and> N \<le> n2 \<and> N \<le> n3 \<longrightarrow>
           finishAsync n1 n2 n3 E b r w
             = Some (case Y of Inl e \<Rightarrow> Rejected e | Inr s \<Rightarrow> Fulfilled (flatQ (outQueue r) @ s))"
    by blast
  have "readAsyncUntilNull n E b r w
           = Some (case Y of Inl e \<Rightarrow> Rejected e | Inr s \<Rightarrow> Fulfilled (flatQ (outQueue r) @ s))"
    if n: "N + 2 \<le> n" for n
  proof -
    obtain m where m: "n = Suc (Suc m)" and mN: "N \<le> m" using n by (cases n; cases "n - 1") auto
    show ?thesis unfolding m readAsyncUntilNull_unfold using assms(4) N mN by simp
  qed
  then show ?thesis by blast
qed

lemma readUntilNull_mono:
  "readUntilNull n E b r w = Some x \<Longrightarrow> readUntilNull (n + k) E b r w = Some x"
proof (induction n arbitrary: r w x)
  case 0
  then show ?case by simp
next
  case (Suc n)
  from Suc.prems obtain res r' w' where rd: "read n E b r w = Some (res, r', w')"
    by (auto split: option.splits)
  note rk = read_mono[OF rd, of k]
  show ?case
  proof (cases res)
    case (Inl e)
    then show ?thesis using Suc.prems rd rk by simp
  next
    case (Inr v)
    show ?thesis
    proof (cases v)
      case None
      then show ?thesis using Suc.prems rd rk Inr by simp
    next
      case (Some s)
      from Suc.prems rd Inr Some obtain y where
        y: "readUntilNull n E b r' w' = Some y" by (auto split: option.splits)
      from Suc.IH[OF y] show ?thesis using Suc.prems rd rk Inr Some y by simp
    qed
  qed
qed

lemma flatten_noPending: "noPending tree \<Longrightarrow> list_all noPending (flattenTopLevelChildren tree)"
  by (cases tree) auto

subsection \<open>The two readers on a tree without pending nodes\<close>

text \<open>
  Claim C6. Take a tree without a pending node, a synchronous and an asynchronous renderer
  built for it from the same shared state with the same static-markup setting, and any two
  positive byte budgets, one for each reader. Then the caller that pulls \<^verbatim>\<open>read\<close> until
  \<^verbatim>\<open>null\<close> and the caller that pulls \<^verbatim>\<open>readAsync\<close> until \<^verbatim>\<open>null\<close> both come to an end
  (with enough fuel both models return), and with the same outcome \<open>Y\<close>: either both
  have concatenated the same string, or \<^verbatim>\<open>read\<close> throws the error that \<^verbatim>\<open>readAsync\<close> is
  rejected with. With a budget of zero neither caller ever sees \<^verbatim>\<open>null\<close>.
\<close>

theorem sync_async_identical:
  assumes np: "noPending tree" and b1: "0 < b1" and b2: "0 < b2"
    and fs: "newRenderer tree static w0 = (rs, ws)"
    and fa: "newRendererAsync tree static None w0 = (ra, wa)"
  shows "\<exists>N Y. \<forall>n\<ge>N. readUntilNull n E b1 rs ws = Some Y
           \<and> readAsyncUntilNull n E b2 ra wa
               = Some (case Y of Inl e \<Rightarrow> Rejected e | Inr s \<Rightarrow> Fulfilled s)"
proof -
  have st: "stack rs = [Frame TNull (flattenTopLevelChildren tree) 0 '''' None]"
    and f: "suspenseDepth rs = 0" "\<not> exhausted rs" "\<not> isChildRenderer rs"
    using fs by (auto simp: newRenderer_def Let_def split: prod.splits)
  have ra: "ra = rs\<lparr>outQueue := [[Str '''']]\<rparr>" and wa: "wa = ws"
    using fs fa by (auto simp: newRendererAsync_def newRenderer_def Let_def split: prod.splits)
  have ti: "travInv rs"
    using st f(1) flatten_noPending[OF np] by (simp add: travInv_def)
  from ran_exists[OF fresh_reaches[OF st, of E ws]] obtain k Y where rn: "ran k E rs ws Y" by blast
  have tia: "travInv ra" using ti ra by simp
  have qia: "qInv ra" using ra f(1) by (simp add: qInv_def)
  have nea: "\<not> exhausted ra" using ra f(2) by simp
  have hba: "headBelow (outQueue ra) b2 = Some True"
    using ra b2 by (simp add: headBelow_def zero_enat_def[symmetric])
  have rna: "ran k E ra wa Y" using rn ra wa by (simp add: ran_outQueue)
  from async_total[OF b2 tia qia nea hba rna] obtain N where
    N: "\<forall>n\<ge>N. readAsyncUntilNull n E b2 ra wa
           = Some (case Y of Inl e \<Rightarrow> Rejected e | Inr s \<Rightarrow> Fulfilled (flatQ (outQueue ra) @ s))"
    by blast
  have fq: "flatQ (outQueue ra) = ''''" using ra by (simp add: flatQ_def flatFs_def)
  have "readUntilNull n E b1 rs ws = Some Y
        \<and> readAsyncUntilNull n E b2 ra wa = Some (case Y of Inl e \<Rightarrow> Rejected e | Inr s \<Rightarrow> Fulfilled s)"
    if n: "N + (2 * k + 3) \<le> n" for n
  proof -
    have "2 * k + 3 \<le> n" using n by simp
    from sync_total_ran[OF b1 ti f(2) f(1) rn this] have s: "readUntilNull n E b1 rs ws = Some Y" .
    have "N \<le> n" using n by simp
    with N fq have "readAsyncUntilNull n E b2 ra wa
           = Some (case Y of Inl e \<Rightarrow> Rejected e | Inr s \<Rightarrow> Fulfilled s)"
      by (cases Y) simp_all
    with s show ?thesis by simp
  qed
  then show ?thesis by blast
qed

theorem sync_async_identical_witness:
  "\<exists>N. \<forall>n\<ge>N.
     readUntilNull n sampleEncoder 3
       (fst (newRenderer sampleTree False (sampleWorld [])))
       (snd (newRenderer sampleTree False (sampleWorld [])))
       = Some (Inr ''<div data-reactroot>a<!--$--><!-- -->b<!-- -->c<!--/$-->d</div>'')
     \<and> readAsyncUntilNull n sampleEncoder 5
       (fst (newRendererAsync sampleTree False None (sampleWorld [])))
       (snd (newRendererAsync sampleTree False None (sampleWorld [])))
       = Some (Fulfilled ''<div data-reactroot>a<!--$--><!-- -->b<!-- -->c<!--/$-->d</div>'')"
proof -
  let ?v = "''<div data-reactroot>a<!--$--><!-- -->b<!-- -->c<!--/$-->d</div>''"
  let ?rs = "fst (newRenderer sampleTree False (sampleWorld []))"
  let ?ws = "snd (newRenderer sampleTree False (sampleWorld []))"
  let ?ra = "fst (newRendererAsync sampleTree False None (sampleWorld []))"
  let ?wa = "snd (newRendererAsync sampleTree False None (sampleWorld []))"
  have np: "noPending sampleTree" by (simp add: sampleTree_def)
  have b: "(0::enat) < 3" "(0::enat) < 5" by simp_all
  from sync_async_identical[OF np b surjective_pairing surjective_pairing,
      where static = False and ?w0.0 = "sampleWorld []" and E = sampleEncoder]
  obtain N Y where
    A: "\<forall>n\<ge>N. readUntilNull n sampleEncoder 3 ?rs ?ws = Some Y
          \<and> readAsyncUntilNull n sampleEncoder 5 ?ra ?wa
              = Some (case Y of Inl e \<Rightarrow> Rejected e | Inr s \<Rightarrow> Fulfilled s)"
    by blast
  have c: "readUntilNull 40 sampleEncoder 3 ?rs ?ws = Some (Inr ?v)" by code_simp
  from readUntilNull_mono[OF c, of N] have "readUntilNull (40 + N) sampleEncoder 3 ?rs ?ws = Some (Inr ?v)" .
  moreover from A have "readUntilNull (40 + N) sampleEncoder 3 ?rs ?ws = Some Y" by simp
  ultimately have Y: "Y = Inr ?v" by simp
  show ?thesis using A Y by (intro exI[of _ N]) simp
qed

end
